theory Spec2Isabelle
  imports Main "HOL-Library.Multiset"
begin

section \<open>Strings\<close>

text \<open>
  A JavaScript string is a sequence of UTF-16 code units. It is modelled as a
  \<^typ>\<open>string\<close> whose characters are the code units below \<open>0x100\<close>; on such strings
  \<open>trim\<close>, \<open>toLowerCase\<close>, \<open>split\<close>, \<open>startsWith\<close>, \<open>substring\<close> and the character
  classes of the regular expressions act as defined here.
\<close>

text \<open>
  The white space of \<open>String.prototype.trim\<close> and of the class \<open>\s\<close>: TAB, LF, VT, FF,
  CR, SPACE and NBSP are the members below \<open>0x100\<close>.
\<close>

definition is_space :: "char \<Rightarrow> bool" where
  "is_space c = (c \<in> set [CHR 0x09, CHR 0x0A, CHR 0x0B, CHR 0x0C, CHR 0x0D, CHR 0x20, CHR 0xA0])"

definition trim :: "string \<Rightarrow> string" where
  "trim s = rev (dropWhile is_space (rev (dropWhile is_space s)))"

text \<open>
  \<open>toLowerCase\<close> on one code unit: the letters \<open>A\<close> to \<open>Z\<close> and the upper-case
  letters of Latin-1 (\<open>0xC0\<close> to \<open>0xDE\<close> without \<open>0xD7\<close>) move up by \<open>0x20\<close>.
\<close>

definition toLowerCase_char :: "char \<Rightarrow> char" where
  "toLowerCase_char c =
     (let n = (of_char c :: nat) in
      if (65 \<le> n \<and> n \<le> 90) \<or> (192 \<le> n \<and> n \<le> 214) \<or> (216 \<le> n \<and> n \<le> 222)
      then char_of (n + 32) else c)"

definition toLowerCase :: "string \<Rightarrow> string" where
  "toLowerCase s = map toLowerCase_char s"

definition startsWith :: "string \<Rightarrow> string \<Rightarrow> bool" where
  "startsWith s p = (take (length p) s = p)"

definition endsWith :: "string \<Rightarrow> string \<Rightarrow> bool" where
  "endsWith s p = (length p \<le> length s \<and> drop (length s - length p) s = p)"

text \<open>
  \<open>s.substring(a, b)\<close>: both indices are clamped to the length and swapped when
  \<open>a > b\<close>.
\<close>

definition substring :: "string \<Rightarrow> nat \<Rightarrow> nat \<Rightarrow> string" where
  "substring s a b =
     (let a' = min a (length s); b' = min b (length s)
      in take (max a' b' - min a' b') (drop (min a' b') s))"

text \<open>
  \<open>s.split(c)\<close> for a one-character separator: one piece more than there are
  separators, and one empty piece for the empty string. A character that is not the
  separator goes in front of the first piece of the rest (the rest always has a first
  piece).
\<close>

fun split_on :: "char \<Rightarrow> string \<Rightarrow> string list" where
  "split_on c [] = [[]]"
| "split_on c (x # xs) =
     (if x = c then [] # split_on c xs
      else (case split_on c xs of [] \<Rightarrow> [[x]] | h # t \<Rightarrow> (x # h) # t))"

section \<open>The table parser\<close>

record table_data =
  headers :: "string list"
  rows :: "string list list"

text \<open>
  \<open>tableContent.trim().split('\n').filter(line => line.trim())\<close>: an empty string
  is falsy, so a line is kept when its trimmed text is not empty.
\<close>

definition table_lines :: "string \<Rightarrow> string list" where
  "table_lines tableContent =
     filter (\<lambda>line. trim line \<noteq> []) (split_on CHR ''\<newline>'' (trim tableContent))"

definition split_cells :: "string \<Rightarrow> string list" where
  "split_cells line = map trim (split_on CHR ''|'' line)"

text \<open>The loop \<open>while (rowData.length < headers.length) rowData.push('')\<close>.\<close>

function pad_row :: "nat \<Rightarrow> string list \<Rightarrow> string list" where
  "pad_row n rowData = (if length rowData < n then pad_row n (rowData @ [[]]) else rowData)"
  by pat_completeness auto
termination
  by (relation "measure (\<lambda>(n, rowData). n - length rowData)") auto

declare pad_row.simps [simp del]

text \<open>The loop \<open>for (let i = 2; i < lines.length; i++)\<close>, with \<open>rows\<close> as accumulator.\<close>

function rows_loop :: "string list \<Rightarrow> string list \<Rightarrow> nat \<Rightarrow> string list list \<Rightarrow> string list list" where
  "rows_loop lns hs i acc =
     (if i < length lns
      then rows_loop lns hs (i + 1) (acc @ [pad_row (length hs) (split_cells (lns ! i))])
      else acc)"
  by pat_completeness auto
termination
  by (relation "measure (\<lambda>(lns, hs, i, acc). length lns - i)") auto

declare rows_loop.simps [simp del]

definition parseTableData :: "string \<Rightarrow> table_data option" where
  "parseTableData tableContent =
     (let lns = table_lines tableContent in
      if length lns < 2 then None
      else let hs = split_cells (lns ! 0)
           in Some \<lparr>headers = hs, rows = rows_loop lns hs 2 []\<rparr>)"

text \<open>
  The specification's reading of the lines of a table body, to compare with
  \<open>table_lines\<close>: the body is split into lines and the blank ones are left out (the
  body as a whole is not trimmed first).
\<close>

definition nonblank_lines :: "string \<Rightarrow> string list" where
  "nonblank_lines body = filter (\<lambda>line. trim line \<noteq> []) (split_on CHR ''\<newline>'' body)"

section \<open>The block scanner\<close>

text \<open>
  The regular expression
  \<^verbatim>\<open>/\[([A-Z]+)(?:=([a-zA-Z0-9_\-]+))?\](.*?)\[\/\1\]/gs\<close>
  is matched by backtracking. At a given start the tag is the longest run of upper-case
  letters (a shorter one is followed by a letter, where \<open>=\<close> or \<open>]\<close> is needed), the
  parameter likewise the longest run of its class, and the lazy body ends at the first
  place where the closing marker of the captured tag stands (with the flag \<open>s\<close> the dot
  matches every code unit). So the match at a start, if any, is unique.
\<close>

definition is_upper :: "char \<Rightarrow> bool" where
  "is_upper c = (let n = (of_char c :: nat) in 65 \<le> n \<and> n \<le> 90)"

definition is_param_char :: "char \<Rightarrow> bool" where
  "is_param_char c =
     (let n = (of_char c :: nat) in
      (97 \<le> n \<and> n \<le> 122) \<or> (65 \<le> n \<and> n \<le> 90) \<or> (48 \<le> n \<and> n \<le> 57)
      \<or> c = CHR ''_'' \<or> c = CHR ''-'')"

text \<open>
  The opening marker at the head of a string: the tag, the parameter if there is one, and
  the text after the closing bracket.
\<close>

definition parse_open :: "string \<Rightarrow> (string \<times> string option \<times> string) option" where
  "parse_open s =
     (case s of
        [] \<Rightarrow> None
      | c # s1 \<Rightarrow>
          if c \<noteq> CHR ''['' then None
          else let tag = takeWhile is_upper s1; s2 = dropWhile is_upper s1 in
            if tag = [] then None
            else (case s2 of
                    [] \<Rightarrow> None
                  | d # s3 \<Rightarrow>
                      if d = CHR '']'' then Some (tag, None, s3)
                      else if d = CHR ''='' then
                        let p = takeWhile is_param_char s3; s4 = dropWhile is_param_char s3 in
                        if p = [] then None
                        else (case s4 of
                                [] \<Rightarrow> None
                              | e # s5 \<Rightarrow> if e = CHR '']'' then Some (tag, Some p, s5) else None)
                      else None))"

definition closing :: "string \<Rightarrow> string" where
  "closing tag = ''[/'' @ tag @ '']''"

text \<open>
  The lazy body: the shortest text after which the closing marker stands, and what
  follows that marker.
\<close>

fun find_close :: "string \<Rightarrow> string \<Rightarrow> (string \<times> string) option" where
  "find_close cl [] = (if cl = [] then Some ([], []) else None)"
| "find_close cl (c # cs) =
     (if startsWith (c # cs) cl then Some ([], drop (length cl) (c # cs))
      else (case find_close cl cs of
              None \<Rightarrow> None
            | Some (body, rest) \<Rightarrow> Some (c # body, rest)))"

text \<open>
  A match: \<open>m0\<close> is the whole matched text, \<open>m1\<close> the tag, \<open>m2\<close> the parameter
  (\<open>undefined\<close> is \<open>None\<close>) and \<open>m3\<close> the body.
\<close>

record block_match =
  m0 :: string
  m1 :: string
  m2 :: "string option"
  m3 :: string

definition match_at :: "string \<Rightarrow> (block_match \<times> string) option" where
  "match_at s =
     (case parse_open s of
        None \<Rightarrow> None
      | Some (tag, param, s') \<Rightarrow>
          (case find_close (closing tag) s' of
             None \<Rightarrow> None
           | Some (body, rest) \<Rightarrow>
               Some (\<lparr>m0 = take (length s - length rest) s, m1 = tag, m2 = param, m3 = body\<rparr>,
                     rest)))"

text \<open>
  \<open>blockRegex.exec(content)\<close> on the text from \<open>lastIndex\<close> on: the first start at which
  there is a match. The result is the text between \<open>lastIndex\<close> and \<open>match.index\<close>, the
  match, and the text from the new \<open>lastIndex\<close> on.
\<close>

fun blockRegex_exec :: "string \<Rightarrow> (string \<times> block_match \<times> string) option" where
  "blockRegex_exec [] = None"
| "blockRegex_exec (c # cs) =
     (case match_at (c # cs) of
        Some (m, rest) \<Rightarrow> Some ([], m, rest)
      | None \<Rightarrow>
          (case blockRegex_exec cs of
             None \<Rightarrow> None
           | Some (pre, m, rest) \<Rightarrow> Some (c # pre, m, rest)))"

section \<open>Rendering\<close>

text \<open>
  The nodes appended to the fragment: a paragraph of inline nodes, a table with its
  header cells and body rows, and a \<open>pre\<close> holding one \<open>code\<close> element (the class of the
  \<open>pre\<close>, the class of the \<open>code\<close>, its text).
\<close>

datatype inline = TextNode string | Br | CodeSpan string

datatype node =
    Paragraph "inline list"
  | TableNode "string list" "string list list"
  | Pre string string string

text \<open>
  The regular expression \<^verbatim>\<open>/(`[^`]+`)/g\<close> at the head of a string: a backtick, the longest
  non-empty run without a backtick, a backtick.
\<close>

definition match_code_span :: "string \<Rightarrow> (string \<times> string) option" where
  "match_code_span s =
     (case s of
        [] \<Rightarrow> None
      | c # r \<Rightarrow>
          if c \<noteq> CHR 0x60 then None
          else let run = takeWhile (\<lambda>x. x \<noteq> CHR 0x60) r; r' = dropWhile (\<lambda>x. x \<noteq> CHR 0x60) r in
            if run = [] then None
            else (case r' of [] \<Rightarrow> None | t # rest \<Rightarrow> Some (CHR 0x60 # run @ [CHR 0x60], rest)))"

lemma match_code_span_shorter:
  "match_code_span s = Some (sp, rest) \<Longrightarrow> length rest < length s"
proof -
  assume a: "match_code_span s = Some (sp, rest)"
  then obtain c r where s: "s = c # r" by (cases s) (auto simp: match_code_span_def)
  from a s obtain t where "dropWhile (\<lambda>x. x \<noteq> CHR 0x60) r = t # rest"
    by (auto simp: match_code_span_def Let_def split: if_splits list.splits)
  moreover have "length (dropWhile (\<lambda>x. x \<noteq> CHR 0x60) r) \<le> length r"
    by (rule length_dropWhile_le)
  ultimately show ?thesis using s by simp
qed

text \<open>
  \<open>text.split(/(`[^`]+`)/g)\<close>: the pieces between the matches, with each captured span
  in between; \<open>acc\<close> is the piece being read.
\<close>

function split_spans :: "string \<Rightarrow> string \<Rightarrow> string list" where
  "split_spans acc [] = [acc]"
| "split_spans acc (c # cs) =
     (case match_code_span (c # cs) of
        Some (sp, rest) \<Rightarrow> acc # sp # split_spans [] rest
      | None \<Rightarrow> split_spans (acc @ [c]) cs)"
  by pat_completeness auto
termination
  by (relation "measure (\<lambda>(acc, s). length s)") (auto dest: match_code_span_shorter)

fun line_nodes :: "string list \<Rightarrow> inline list" where
  "line_nodes [] = []"
| "line_nodes [l] = [TextNode l]"
| "line_nodes (l # ls) = TextNode l # Br # line_nodes ls"

definition part_nodes :: "string \<Rightarrow> inline list" where
  "part_nodes part =
     (if startsWith part [CHR 0x60] \<and> endsWith part [CHR 0x60]
      then [CodeSpan (substring part 1 (length part - 1))]
      else if part \<noteq> [] then line_nodes (split_on CHR ''\<newline>'' part)
      else [])"

definition renderText :: "string \<Rightarrow> node list" where
  "renderText text =
     (if text = [] then [] else [Paragraph (concat (map part_nodes (split_spans [] text)))])"

text \<open>
  The text of a \<open>CODE\<close> block. The test \<open>codeText.match(/^sql\s+/i)\<close> answers the
  matched prefix; only \<open>s\<close>, \<open>q\<close>, \<open>l\<close> and their capitals match the three letters.
\<close>

definition match_sql_prefix :: "string \<Rightarrow> string option" where
  "match_sql_prefix s =
     (if toLowerCase (take 3 s) = ''sql'' \<and> takeWhile is_space (drop 3 s) \<noteq> []
      then Some (take 3 s @ takeWhile is_space (drop 3 s)) else None)"

definition code_text :: "string option \<Rightarrow> string \<Rightarrow> string" where
  "code_text tagParam blockContent =
     (let codeText = trim blockContent in
      case tagParam of
        None \<Rightarrow> codeText
      | Some p \<Rightarrow>
          if toLowerCase p = ''sql'' \<and> startsWith (toLowerCase codeText) ''sql ''
          then (case match_sql_prefix codeText of
                  Some m \<Rightarrow> substring codeText (length m) (length codeText)
                | None \<Rightarrow> codeText)
          else codeText)"

definition code_class :: "string option \<Rightarrow> string" where
  "code_class tagParam =
     (case tagParam of None \<Rightarrow> [] | Some p \<Rightarrow> ''language-'' @ toLowerCase p)"

definition render_block :: "block_match \<Rightarrow> node" where
  "render_block m =
     (if m1 m = ''TABLE'' then
        (case parseTableData (m3 m) of
           Some t \<Rightarrow> TableNode (headers t) (rows t)
         | None \<Rightarrow> Pre ''bg-light p-2 border rounded'' ''text-danger''
                     (''Could not parse table block:\<newline>'' @ m0 m))
      else if m1 m = ''CODE'' then
        Pre ''p-3 border rounded'' (code_class (m2 m)) (code_text (m2 m) (m3 m))
      else
        Pre ''bg-light p-2 border rounded'' ''text-warning''
          (''Unknown block type:\<newline>'' @ m0 m))"

lemma find_close_shorter:
  "find_close cl s = Some (body, rest) \<Longrightarrow> length rest \<le> length s"
  by (induction s arbitrary: body) (auto split: if_splits option.splits)

lemma match_at_shorter:
  "match_at s = Some (m, rest) \<Longrightarrow> length rest < length s"
proof -
  assume a: "match_at s = Some (m, rest)"
  then obtain tag param s' body where po: "parse_open s = Some (tag, param, s')"
    and fc: "find_close (closing tag) s' = Some (body, rest)"
    by (auto simp: match_at_def split: option.splits)
  from po obtain c s1 where s: "s = c # s1" by (cases s) (auto simp: parse_open_def)
  have d1: "length (dropWhile is_upper s1) \<le> length s1" by (rule length_dropWhile_le)
  have "length s' < length s"
  proof (cases param)
    case None
    with po s have "dropWhile is_upper s1 = CHR '']'' # s'"
      by (auto simp: parse_open_def Let_def split: if_splits list.splits)
    with d1 s show ?thesis by simp
  next
    case (Some p)
    with po s obtain s3 where a1: "dropWhile is_upper s1 = CHR ''='' # s3"
      and a2: "dropWhile is_param_char s3 = CHR '']'' # s'"
      by (auto simp: parse_open_def Let_def split: if_splits list.splits)
    have "length (dropWhile is_param_char s3) \<le> length s3" by (rule length_dropWhile_le)
    with a1 a2 d1 s show ?thesis by simp
  qed
  with find_close_shorter [OF fc] show ?thesis by simp
qed

lemma blockRegex_exec_shorter:
  "blockRegex_exec s = Some (pre, m, rest) \<Longrightarrow> length rest < length s"
proof (induction s arbitrary: pre)
  case Nil
  then show ?case by simp
next
  case (Cons c cs)
  show ?case
  proof (cases "match_at (c # cs)")
    case None
    with Cons.prems obtain pre' where "blockRegex_exec cs = Some (pre', m, rest)"
      by (auto split: option.splits)
    from Cons.IH [OF this] show ?thesis by simp
  next
    case (Some a)
    with Cons.prems have "match_at (c # cs) = Some (m, rest)" by (cases a) auto
    then show ?thesis by (rule match_at_shorter)
  qed
qed

text \<open>
  The loop of \<open>renderContent\<close> on the text from \<open>lastIndex\<close> on: the trimmed text
  before each match, the block of the match, and after the last match the trimmed rest.
\<close>

function renderContent :: "string \<Rightarrow> node list" where
  "renderContent content =
     (case blockRegex_exec content of
        None \<Rightarrow> renderText (trim content)
      | Some (pre, m, rest) \<Rightarrow> renderText (trim pre) @ render_block m # renderContent rest)"
  by pat_completeness auto
termination
  by (relation "measure length") (auto dest: blockRegex_exec_shorter)

declare renderContent.simps [simp del]

section \<open>The marker grammar of the specification\<close>

text \<open>
  The specification's reading of a card text, to compare with the scanner: an opening
  marker \<open>[TAG]\<close> or \<open>[TAG=param]\<close> with an upper-case tag and a parameter of letters,
  digits, \<open>_\<close> and \<open>-\<close>; a block, which is an opening marker, a body and the closing
  marker of the same tag; a body in which that closing marker does not stand before
  the one that ends the block; and a gap, in which no opening marker stands.
\<close>

definition open_marker :: "string \<Rightarrow> string option \<Rightarrow> string" where
  "open_marker tag param =
     ''['' @ tag @ (case param of None \<Rightarrow> [] | Some p \<Rightarrow> ''='' @ p) @ '']''"

definition tag_name :: "string \<Rightarrow> bool" where
  "tag_name tag = (tag \<noteq> [] \<and> list_all is_upper tag)"

definition param_ok :: "string option \<Rightarrow> bool" where
  "param_ok param = (case param of None \<Rightarrow> True | Some p \<Rightarrow> p \<noteq> [] \<and> list_all is_param_char p)"

definition block_text :: "string \<Rightarrow> string option \<Rightarrow> string \<Rightarrow> string" where
  "block_text tag param body = open_marker tag param @ body @ closing tag"

text \<open>
  \<open>opaque_body cl body\<close>: in \<open>body\<close> followed by the closing marker \<open>cl\<close>, the marker
  stands at no place before the end of the body.
\<close>

fun opaque_body :: "string \<Rightarrow> string \<Rightarrow> bool" where
  "opaque_body cl [] = True"
| "opaque_body cl (c # cs) = (\<not> startsWith ((c # cs) @ cl) cl \<and> opaque_body cl cs)"

text \<open>\<open>marker_free gap\<close>: no opening marker stands at any place of the gap.\<close>

fun marker_free :: "string \<Rightarrow> bool" where
  "marker_free [] = True"
| "marker_free (c # cs) = (parse_open (c # cs) = None \<and> marker_free cs)"

text \<open>
  A balanced text: a gap, then blocks (tag, parameter, body), each followed by a gap.
  \<open>document\<close> writes the text out; \<open>balanced\<close> says that every gap is free of opening
  markers and every block is well formed.
\<close>

type_synonym block_src = "string \<times> string option \<times> string"

definition block_of :: "block_src \<Rightarrow> block_match" where
  "block_of b =
     (case b of (tag, param, body) \<Rightarrow>
        \<lparr>m0 = block_text tag param body, m1 = tag, m2 = param, m3 = body\<rparr>)"

definition well_formed :: "block_src \<Rightarrow> bool" where
  "well_formed b =
     (case b of (tag, param, body) \<Rightarrow>
        tag_name tag \<and> param_ok param \<and> opaque_body (closing tag) body)"

fun document :: "string \<Rightarrow> (block_src \<times> string) list \<Rightarrow> string" where
  "document gap [] = gap"
| "document gap ((b, gap') # bs) = gap @ m0 (block_of b) @ document gap' bs"

fun balanced :: "string \<Rightarrow> (block_src \<times> string) list \<Rightarrow> bool" where
  "balanced gap [] = marker_free gap"
| "balanced gap ((b, gap') # bs) = (marker_free gap \<and> well_formed b \<and> balanced gap' bs)"

section \<open>The study session\<close>

text \<open>
  A card as the server sends it. Its field \<open>id\<close> is \<open>card_id\<close> here (the name it has in
  the review request), since \<open>id\<close> is the identity function of HOL.
\<close>

record card =
  card_id :: nat
  front_content :: string
  back_content :: string

type_synonym rating = string

text \<open>
  The state of the page (what the script writes to the console is left out): the three
  variables of the script, then what the script reads
  and writes of the document (the class \<open>d-none\<close> of an element as a flag \<open>Hidden\<close>, the
  \<open>disabled\<close> property of the buttons, the rendered sides, the status line as the pair
  of numbers it shows), whether the click listeners are attached, and the review
  requests: \<open>pending\<close> holds the requests sent and not yet answered, \<open>posted\<close> every
  request sent, \<open>loaded\<close> every card that \<open>loadCard\<close> has put on the page.
\<close>

record session =
  cards :: "card list"
  currentCardIndex :: nat
  isBackVisible :: bool
  deckTitle :: string
  sessionStatus :: "nat \<times> nat"
  frontContent :: "node list"
  backContent :: "node list"
  frontCardHidden :: bool
  backCardHidden :: bool
  actionBtnHidden :: bool
  actionBtnDisabled :: bool
  ratingButtonsHidden :: bool
  ratingButtonsDisabled :: bool
  studyAreaHidden :: bool
  controlsHidden :: bool
  sessionCompleteHidden :: bool
  errorMessage :: string
  errorMessageHidden :: bool
  listening :: bool
  pending :: "(nat \<times> rating) list"
  posted :: "(nat \<times> rating) list"
  loaded :: "card list"

text \<open>
  \<open>[array[i], array[j]] = [array[j], array[i]]\<close>: both reads come first, then the write
  at \<open>i\<close>, then the write at \<open>j\<close>.
\<close>

definition swap :: "nat \<Rightarrow> nat \<Rightarrow> 'a list \<Rightarrow> 'a list" where
  "swap i j array = (let a = array ! j; b = array ! i in array[i := a, j := b])"

text \<open>
  The random source is a parameter: \<open>random i\<close> is the value of
  \<open>Math.floor(Math.random() * (i + 1))\<close> drawn in the pass with index \<open>i\<close>, a number from
  \<open>0\<close> to \<open>i\<close>.
\<close>

function shuffle_loop :: "(nat \<Rightarrow> nat) \<Rightarrow> nat \<Rightarrow> 'a list \<Rightarrow> 'a list" where
  "shuffle_loop random i array =
     (if i > 0 then shuffle_loop random (i - 1) (swap i (random i) array) else array)"
  by pat_completeness auto
termination
  by (relation "measure (\<lambda>(random, i, array). i)") auto

declare shuffle_loop.simps [simp del]

definition shuffleArray :: "(nat \<Rightarrow> nat) \<Rightarrow> 'a list \<Rightarrow> 'a list" where
  "shuffleArray random array = shuffle_loop random (length array - 1) array"

definition loadCard :: "nat \<Rightarrow> session \<Rightarrow> session" where
  "loadCard cardIndex s =
     (if cardIndex \<ge> length (cards s) then
        s\<lparr>studyAreaHidden := True, controlsHidden := True, sessionCompleteHidden := False\<rparr>
      else
        let card = cards s ! cardIndex in
        s\<lparr>isBackVisible := False,
          loaded := loaded s @ [card],
          frontContent := renderContent (front_content card),
          backContent := renderContent (back_content card),
          backCardHidden := True,
          frontCardHidden := False,
          ratingButtonsHidden := True,
          ratingButtonsDisabled := False,
          actionBtnHidden := False,
          actionBtnDisabled := False,
          sessionStatus := (cardIndex + 1, length (cards s))\<rparr>)"

definition handleActionClick :: "session \<Rightarrow> session" where
  "handleActionClick s =
     (if isBackVisible s then s
      else s\<lparr>backCardHidden := False, isBackVisible := True,
             actionBtnHidden := True, ratingButtonsHidden := False\<rparr>)"

text \<open>
  \<open>handleRatingClick\<close> up to its \<open>await fetch\<close>. With the index past the end
  \<open>cards[currentCardIndex]\<close> is \<open>undefined\<close>, and the log line that reads \<open>card.id\<close>
  stands before the test \<open>if (!card)\<close>: the call ends in a \<open>TypeError\<close> (a rejected
  promise) with nothing changed.
\<close>

datatype js_error = TypeError

definition handleRatingClick :: "rating \<Rightarrow> session \<Rightarrow> js_error + session" where
  "handleRatingClick rating s =
     (if currentCardIndex s < length (cards s) then
        let card = cards s ! currentCardIndex s in
        Inr (s\<lparr>ratingButtonsDisabled := True,
               posted := posted s @ [(card_id card, rating)],
               pending := pending s @ [(card_id card, rating)]\<rparr>)
      else Inl TypeError)"

text \<open>The rest of \<open>handleRatingClick\<close>, run when the answer to the request arrives.\<close>

definition review_succeeded :: "session \<Rightarrow> session" where
  "review_succeeded s =
     loadCard (currentCardIndex s + 1)
       (s\<lparr>pending := tl (pending s), currentCardIndex := currentCardIndex s + 1\<rparr>)"

definition review_failed :: "string \<Rightarrow> session \<Rightarrow> session" where
  "review_failed message s =
     s\<lparr>pending := tl (pending s),
       errorMessage := ''Error submitting review: '' @ message,
       errorMessageHidden := False,
       ratingButtonsDisabled := False\<rparr>"

text \<open>
  What \<open>initializeStudySession\<close> gets from the address and the server: no deck
  parameter, a failed request, or the name for the title and the due cards. With no
  card due the completion screen is shown (the two texts written into it are left out)
  and no listener is attached; otherwise the cards are shuffled, the first one is
  loaded and the listeners are attached.
\<close>

datatype fetched = NoDeckId | FetchError | Due string "card list"

definition initializeStudySession :: "(nat \<Rightarrow> nat) \<Rightarrow> fetched \<Rightarrow> session \<Rightarrow> session" where
  "initializeStudySession random f s =
     (case f of
        NoDeckId \<Rightarrow>
          s\<lparr>errorMessage := ''No deck selected. Please <a href='' @ [CHR 0x22] @ ''index.html'' @ [CHR 0x22] @ ''>go back</a> and choose a deck.'',
            errorMessageHidden := False, studyAreaHidden := True, controlsHidden := True,
            deckTitle := ''Error''\<rparr>
      | FetchError \<Rightarrow>
          s\<lparr>errorMessage := ''Could not load the deck. Please ensure the backend is running and the deck ID is valid.'',
            errorMessageHidden := False, studyAreaHidden := True, controlsHidden := True,
            deckTitle := ''Error Loading Deck''\<rparr>
      | Due deckName due \<Rightarrow>
          if due = [] then
            s\<lparr>deckTitle := deckName, cards := due, sessionCompleteHidden := False,
              studyAreaHidden := True, controlsHidden := True\<rparr>
          else
            (loadCard 0 (s\<lparr>deckTitle := deckName, cards := shuffleArray random due,
                           currentCardIndex := 0\<rparr>))\<lparr>listening := True\<rparr>)"

text \<open>
  The events of the page. A click on a button runs its listener when the listeners are
  attached and the button is not disabled (a disabled button dispatches no click).
  Neither the listeners nor the handlers look at the class \<open>d-none\<close>: a click
  dispatched to a hidden button runs the handler like any other. An answer arrives only
  for a request that is pending.
\<close>

datatype event = ClickAction | ClickRating rating | ReviewOk | ReviewFailed string

definition action_enabled :: "session \<Rightarrow> bool" where
  "action_enabled s = (listening s \<and> \<not> actionBtnDisabled s)"

definition rating_enabled :: "session \<Rightarrow> bool" where
  "rating_enabled s = (listening s \<and> \<not> ratingButtonsDisabled s)"

fun step :: "event \<Rightarrow> session \<Rightarrow> session" where
  "step ClickAction s = (if action_enabled s then handleActionClick s else s)"
| "step (ClickRating rating) s =
     (if rating_enabled s
      then (case handleRatingClick rating s of Inl e \<Rightarrow> s | Inr s' \<Rightarrow> s')
      else s)"
| "step ReviewOk s = (if pending s = [] then s else review_succeeded s)"
| "step (ReviewFailed message) s = (if pending s = [] then s else review_failed message s)"

definition run :: "event list \<Rightarrow> session \<Rightarrow> session" where
  "run es s = foldl (\<lambda>s e. step e s) s es"

text \<open>
  The scripted run of the specification: for each card a click on the action button
  (reveal), a click on a rating button, and the success of the request.
\<close>

definition script :: "rating list \<Rightarrow> event list" where
  "script ratings = concat (map (\<lambda>rating. [ClickAction, ClickRating rating, ReviewOk]) ratings)"

text \<open>
  The page as the script finds it: its variables at their initial values, no listener,
  no request; what the document shows is not constrained.
\<close>

definition page_load :: "session \<Rightarrow> bool" where
  "page_load s =
     (cards s = [] \<and> currentCardIndex s = 0 \<and> \<not> isBackVisible s \<and> \<not> listening s
      \<and> pending s = [] \<and> posted s = [] \<and> loaded s = [])"

inductive reachable :: "session \<Rightarrow> bool" where
  reach_init: "page_load s \<Longrightarrow> reachable (initializeStudySession random f s)"
| reach_step: "reachable s \<Longrightarrow> reachable (step e s)"

text \<open>
  Two phases of a session, as the flags show them: the front of a card shown and the
  controls ready for the reveal, and all cards reviewed after the last rating.
\<close>

definition front_shown :: "session \<Rightarrow> bool" where
  "front_shown s =
     (currentCardIndex s < length (cards s) \<and> \<not> isBackVisible s
      \<and> ratingButtonsHidden s \<and> \<not> ratingButtonsDisabled s
      \<and> \<not> actionBtnHidden s \<and> \<not> actionBtnDisabled s \<and> pending s = [])"

definition complete :: "session \<Rightarrow> bool" where
  "complete s =
     (currentCardIndex s = length (cards s) \<and> isBackVisible s
      \<and> \<not> ratingButtonsHidden s \<and> ratingButtonsDisabled s
      \<and> actionBtnHidden s \<and> pending s = []
      \<and> studyAreaHidden s \<and> controlsHidden s \<and> \<not> sessionCompleteHidden s)"

text \<open>
  What holds in every reachable state. With listeners attached: the rating buttons are
  hidden exactly while the back is not revealed; at most one request is pending, and
  while one is pending the rating buttons are disabled; the index is at most the
  number of cards, and once it has reached that number the rating buttons are disabled
  and nothing is pending. Without listeners nothing is pending.
\<close>

definition session_inv :: "session \<Rightarrow> bool" where
  "session_inv s =
     (if listening s then
        ratingButtonsHidden s = (\<not> isBackVisible s)
        \<and> length (pending s) \<le> 1
        \<and> (pending s \<noteq> [] \<longrightarrow> ratingButtonsDisabled s)
        \<and> currentCardIndex s \<le> length (cards s)
        \<and> (currentCardIndex s = length (cards s) \<longrightarrow>
              ratingButtonsDisabled s \<and> pending s = [])
      else pending s = [])"

text \<open>A page and two cards for the examples.\<close>

definition blank_page :: session where
  "blank_page =
     \<lparr>cards = [], currentCardIndex = 0, isBackVisible = False,
      deckTitle = ''Loading...'', sessionStatus = (0, 0), frontContent = [], backContent = [],
      frontCardHidden = False, backCardHidden = True,
      actionBtnHidden = False, actionBtnDisabled = False,
      ratingButtonsHidden = True, ratingButtonsDisabled = False,
      studyAreaHidden = False, controlsHidden = False, sessionCompleteHidden = True,
      errorMessage = [], errorMessageHidden = True, listening = False,
      pending = [], posted = [], loaded = []\<rparr>"

definition card_a :: card where
  "card_a = \<lparr>card_id = 7, front_content = ''What is `SELECT`?'', back_content = ''[CODE=sql]SELECT 1[/CODE]''\<rparr>"

definition card_b :: card where
  "card_b = \<lparr>card_id = 9, front_content = ''Keys'', back_content = ''[TABLE]k | v\<newline>--\<newline>a | 1[/TABLE]''\<rparr>"

section \<open>Properties of the table parser\<close>

lemma pad_row_eq: "pad_row n r = r @ replicate (n - length r) []"
proof (induction n r rule: pad_row.induct)
  case (1 n r)
  show ?case
  proof (cases "length r < n")
    case True
    then have "n - length r = Suc (n - length (r @ [[]]))" by simp
    with 1 True show ?thesis
      by (subst pad_row.simps) simp
  next
    case False
    then show ?thesis by (subst pad_row.simps) simp
  qed
qed

lemma rows_loop_eq:
  "rows_loop lns hs i acc = acc @ map (\<lambda>l. pad_row (length hs) (split_cells l)) (drop i lns)"
proof (induction lns hs i acc rule: rows_loop.induct)
  case (1 lns hs i acc)
  show ?case
  proof (cases "i < length lns")
    case True
    with 1 show ?thesis
      by (subst rows_loop.simps) (simp add: Cons_nth_drop_Suc [symmetric])
  next
    case False
    then show ?thesis by (subst rows_loop.simps) simp
  qed
qed

lemma split_on_not_Nil [simp]: "split_on c s \<noteq> []"
  by (induction s) (auto split: list.splits)

lemma trim_Cons_space: "is_space w \<Longrightarrow> trim (w # s) = trim s"
  by (simp add: trim_def)

lemma trim_snoc_space:
  assumes "is_space w" shows "trim (s @ [w]) = trim s"
proof (cases "\<forall>x\<in>set s. is_space x")
  case True
  then have e: "dropWhile is_space (s @ [w]) = []" "dropWhile is_space s = []"
    using assms by (auto simp: dropWhile_eq_Nil_conv)
  show ?thesis unfolding trim_def e by simp
next
  case False
  then have "dropWhile is_space (s @ [w]) = dropWhile is_space s @ [w]"
    by (auto simp: dropWhile_append1)
  with assms show ?thesis by (simp add: trim_def)
qed

lemma split_on_snoc:
  "split_on c (s @ [w]) =
     (if w = c then split_on c s @ [[]]
      else butlast (split_on c s) @ [last (split_on c s) @ [w]])"
proof (induction s)
  case Nil
  show ?case by simp
next
  case (Cons x xs)
  obtain h t where ht: "split_on c xs = h # t" by (cases "split_on c xs") auto
  show ?case using Cons ht by (cases t) (auto)
qed

lemma nb_Cons_space:
  assumes "is_space w"
  shows "map trim (filter (\<lambda>l. trim l \<noteq> []) (split_on CHR ''\<newline>'' (w # s)))
       = map trim (filter (\<lambda>l. trim l \<noteq> []) (split_on CHR ''\<newline>'' s))"
proof -
  obtain h t where ht: "split_on CHR ''\<newline>'' s = h # t"
    by (cases "split_on CHR ''\<newline>'' s") auto
  show ?thesis using assms ht by (simp add: trim_Cons_space) (simp add: trim_def)
qed

lemma nb_snoc_space:
  assumes "is_space w"
  shows "map trim (filter (\<lambda>l. trim l \<noteq> []) (split_on CHR ''\<newline>'' (s @ [w])))
       = map trim (filter (\<lambda>l. trim l \<noteq> []) (split_on CHR ''\<newline>'' s))"
proof -
  obtain b l where bl: "split_on CHR ''\<newline>'' s = b @ [l]"
    by (cases "split_on CHR ''\<newline>'' s" rule: rev_cases) auto
  show ?thesis
  proof (cases "w = CHR ''\<newline>''")
    case True
    then show ?thesis by (simp add: split_on_snoc trim_def)
  next
    case False
    then show ?thesis using assms bl
      by (simp add: split_on_snoc trim_snoc_space)
  qed
qed

lemma nb_dropWhile:
  "map trim (filter (\<lambda>l. trim l \<noteq> []) (split_on CHR ''\<newline>'' (dropWhile is_space s)))
   = map trim (filter (\<lambda>l. trim l \<noteq> []) (split_on CHR ''\<newline>'' s))"
proof (induction s)
  case Nil
  show ?case by simp
next
  case (Cons x xs)
  show ?case
  proof (cases "is_space x")
    case True
    with Cons nb_Cons_space [OF True, of xs] show ?thesis by simp
  next
    case False
    then show ?thesis by simp
  qed
qed

lemma nb_dropWhile_end:
  "map trim (filter (\<lambda>l. trim l \<noteq> []) (split_on CHR ''\<newline>'' (rev (dropWhile is_space (rev s)))))
   = map trim (filter (\<lambda>l. trim l \<noteq> []) (split_on CHR ''\<newline>'' s))"
proof (induction s rule: rev_induct)
  case Nil
  show ?case by simp
next
  case (snoc x xs)
  show ?case
  proof (cases "is_space x")
    case True
    with snoc nb_snoc_space [OF True, of xs] show ?thesis by simp
  next
    case False
    then show ?thesis by simp
  qed
qed

lemma table_lines_trim: "map trim (table_lines body) = map trim (nonblank_lines body)"
  unfolding table_lines_def nonblank_lines_def trim_def [of body]
  by (simp only: nb_dropWhile_end nb_dropWhile)

lemma bar_not_space: "\<not> is_space (CHR ''|'')"
  by (simp add: is_space_def)

lemma split_cells_Cons_space: "is_space w \<Longrightarrow> split_cells (w # s) = split_cells s"
proof -
  assume w: "is_space w"
  then have "w \<noteq> CHR ''|''" using bar_not_space by auto
  moreover obtain h t where "split_on CHR ''|'' s = h # t"
    by (cases "split_on CHR ''|'' s") auto
  ultimately show ?thesis using w by (simp add: split_cells_def trim_Cons_space)
qed

lemma split_cells_snoc_space: "is_space w \<Longrightarrow> split_cells (s @ [w]) = split_cells s"
proof -
  assume w: "is_space w"
  then have nb: "w \<noteq> CHR ''|''" using bar_not_space by auto
  obtain b l where bl: "split_on CHR ''|'' s = b @ [l]"
    by (cases "split_on CHR ''|'' s" rule: rev_cases) auto
  show ?thesis using w nb bl
    by (simp add: split_cells_def split_on_snoc trim_snoc_space)
qed

lemma split_cells_dropWhile: "split_cells (dropWhile is_space s) = split_cells s"
  by (induction s) (simp_all add: split_cells_Cons_space)

lemma split_cells_dropWhile_end: "split_cells (rev (dropWhile is_space (rev s))) = split_cells s"
  by (induction s rule: rev_induct) (simp_all add: split_cells_snoc_space)

lemma split_cells_trim: "split_cells (trim l) = split_cells l"
  by (simp add: trim_def split_cells_dropWhile_end split_cells_dropWhile)

lemma table_lines_cells: "map split_cells (table_lines body) = map split_cells (nonblank_lines body)"
proof -
  have "map split_cells ls = map split_cells (map trim ls)" for ls
    by (simp add: split_cells_trim)
  then show ?thesis by (metis table_lines_trim)
qed

lemma parseTableData_lines:
  "parseTableData body =
     (let ls = nonblank_lines body in
      if length ls < 2 then None
      else Some \<lparr>headers = split_cells (ls ! 0),
                 rows = map (\<lambda>l. pad_row (length (split_cells (ls ! 0))) (split_cells l)) (drop 2 ls)\<rparr>)"
proof -
  let ?tl = "table_lines body" and ?nl = "nonblank_lines body"
  have len: "length ?tl = length ?nl"
    using table_lines_trim [of body] by (metis length_map)
  have cells: "map split_cells ?tl = map split_cells ?nl" by (rule table_lines_cells)
  show ?thesis
  proof (cases "length ?nl < 2")
    case True
    with len show ?thesis by (simp add: parseTableData_def Let_def)
  next
    case False
    with len have "0 < length ?tl" "0 < length ?nl" by linarith+
    then have h: "split_cells (?tl ! 0) = split_cells (?nl ! 0)"
      using cells by (metis nth_map)
    have "map (\<lambda>l. pad_row n (split_cells l)) (drop 2 ?tl)
        = map (pad_row n) (drop 2 (map split_cells ?tl))" for n
      by (simp add: drop_map)
    also have "\<dots> n = map (\<lambda>l. pad_row n (split_cells l)) (drop 2 ?nl)" for n
      by (simp add: cells drop_map)
    finally have r: "map (\<lambda>l. pad_row n (split_cells l)) (drop 2 ?tl)
        = map (\<lambda>l. pad_row n (split_cells l)) (drop 2 ?nl)" for n .
    from False len show ?thesis
      by (simp add: parseTableData_def Let_def rows_loop_eq h r)
  qed
qed

lemma split_on_no_sep: "c \<notin> set s \<Longrightarrow> split_on c s = [s]"
  by (induction s) auto

lemma split_on_append_sep: "c \<notin> set s \<Longrightarrow> split_on c (s @ c # r) = s # split_on c r"
  by (induction s) auto

text \<open>
  Claim C3. When a table body parses, the headers are the trimmed cells of its first
  non-blank line, the second is skipped, and each further non-blank line gives one row:
  its trimmed cells followed by as many empty strings as the header has more cells. So
  a row with fewer cells than the header gets exactly the length of the header, a row
  with as many or more cells is kept as it is, and no row is shorter than the header.
  In particular the header line \<open>a | b | c\<close>, any separator line and the data row
  \<open>1 | 2\<close> give the headers \<open>a\<close>, \<open>b\<close>, \<open>c\<close> and the one row \<open>1\<close>, \<open>2\<close>, empty.
\<close>

theorem table_rows_padded:
  assumes "parseTableData body = Some t"
  shows "headers t = split_cells (nonblank_lines body ! 0)
    \<and> length (rows t) = length (nonblank_lines body) - 2
    \<and> (\<forall>i<length (rows t).
          let cells = split_cells (nonblank_lines body ! (i + 2)) in
            rows t ! i = cells @ replicate (length (headers t) - length cells) []
          \<and> (length cells < length (headers t) \<longrightarrow> length (rows t ! i) = length (headers t))
          \<and> (length (headers t) \<le> length cells \<longrightarrow> rows t ! i = cells)
          \<and> length (headers t) \<le> length (rows t ! i))
    \<and> (\<forall>sep. CHR ''\<newline>'' \<notin> set sep \<and> trim sep \<noteq> [] \<longrightarrow>
          parseTableData (''a | b | c\<newline>'' @ sep @ ''\<newline>1 | 2'')
            = Some \<lparr>headers = [''a'', ''b'', ''c''], rows = [[''1'', ''2'', []]]\<rparr>)"
proof -
  let ?ls = "nonblank_lines body"
  from assms have t: "t = \<lparr>headers = split_cells (?ls ! 0),
      rows = map (\<lambda>l. pad_row (length (split_cells (?ls ! 0))) (split_cells l)) (drop 2 ?ls)\<rparr>"
    by (simp add: parseTableData_lines Let_def split: if_splits)
  have a: "headers t = split_cells (?ls ! 0)" by (subst t) simp
  have rt: "rows t = map (\<lambda>l. pad_row (length (split_cells (?ls ! 0))) (split_cells l)) (drop 2 ?ls)"
    by (subst t) simp
  have b: "length (rows t) = length ?ls - 2" by (simp add: rt)
  have c: "rows t ! i = split_cells (?ls ! (i + 2))
             @ replicate (length (headers t) - length (split_cells (?ls ! (i + 2)))) []"
    if "i < length (rows t)" for i
  proof -
    from that b have "i < length (drop 2 ?ls)" by simp
    then have "rows t ! i = pad_row (length (headers t)) (split_cells (?ls ! (i + 2)))"
      by (simp add: rt a add.commute)
    then show ?thesis by (simp add: pad_row_eq)
  qed
  have d: "parseTableData (''a | b | c\<newline>'' @ sep @ ''\<newline>1 | 2'')
            = Some \<lparr>headers = [''a'', ''b'', ''c''], rows = [[''1'', ''2'', []]]\<rparr>"
    if "CHR ''\<newline>'' \<notin> set sep" "trim sep \<noteq> []" for sep
  proof -
    have n1: "CHR ''\<newline>'' \<notin> set ''a | b | c''" and n2: "CHR ''\<newline>'' \<notin> set ''1 | 2''"
      by simp_all
    have "split_on CHR ''\<newline>'' (''a | b | c'' @ CHR ''\<newline>'' # (sep @ CHR ''\<newline>'' # ''1 | 2''))
        = [''a | b | c'', sep, ''1 | 2'']"
      by (simp only: split_on_append_sep [OF n1] split_on_append_sep [OF that(1)]
            split_on_no_sep [OF n2])
    then have "nonblank_lines (''a | b | c\<newline>'' @ sep @ ''\<newline>1 | 2'')
        = [''a | b | c'', sep, ''1 | 2'']"
      using that(2) by (simp add: nonblank_lines_def trim_def is_space_def)
    moreover have "split_cells ''a | b | c'' = [''a'', ''b'', ''c'']" by code_simp
    moreover have "split_cells ''1 | 2'' = [''1'', ''2'']" by code_simp
    ultimately show ?thesis
      by (simp add: parseTableData_lines pad_row_eq numeral_2_eq_2)
  qed
  have c': "\<forall>i<length (rows t).
          let cells = split_cells (nonblank_lines body ! (i + 2)) in
            rows t ! i = cells @ replicate (length (headers t) - length cells) []
          \<and> (length cells < length (headers t) \<longrightarrow> length (rows t ! i) = length (headers t))
          \<and> (length (headers t) \<le> length cells \<longrightarrow> rows t ! i = cells)
          \<and> length (headers t) \<le> length (rows t ! i)"
    using c by (auto simp: Let_def)
  have d': "\<forall>sep. CHR ''\<newline>'' \<notin> set sep \<and> trim sep \<noteq> [] \<longrightarrow>
          parseTableData (''a | b | c\<newline>'' @ sep @ ''\<newline>1 | 2'')
            = Some \<lparr>headers = [''a'', ''b'', ''c''], rows = [[''1'', ''2'', []]]\<rparr>"
    using d by blast
  from a b c' d' show ?thesis by - (intro conjI, assumption+)
qed

theorem table_rows_padded_witness:
  "parseTableData ''h1|h2|h3\<newline>--\<newline>x\<newline>1|2|3|4''
     = Some \<lparr>headers = [''h1'', ''h2'', ''h3''], rows = [[''x'', [], []], [''1'', ''2'', ''3'', ''4'']]\<rparr>
   \<and> split_cells (nonblank_lines ''h1|h2|h3\<newline>--\<newline>x\<newline>1|2|3|4'' ! 0) = [''h1'', ''h2'', ''h3'']"
proof -
  let ?t = "\<lparr>headers = [''h1'', ''h2'', ''h3''], rows = [[''x'', [], []], [''1'', ''2'', ''3'', ''4'']]\<rparr>"
  have h: "parseTableData ''h1|h2|h3\<newline>--\<newline>x\<newline>1|2|3|4'' = Some ?t" by code_simp
  from table_rows_padded [OF h, THEN conjunct1] h show ?thesis by simp
qed

text \<open>
  Claim C10. A table body with exactly two non-blank lines, a header line and a
  separator line, parses: the headers are the trimmed cells of the first line and there
  is no row.
\<close>

theorem header_only_table:
  assumes "nonblank_lines body = [header, separator]"
  shows "parseTableData body = Some \<lparr>headers = split_cells header, rows = []\<rparr>"
  using assms by (simp add: parseTableData_lines)

theorem header_only_table_witness:
  "nonblank_lines ''a | b\<newline>\<newline>--- | ---\<newline>  '' = [''a | b'', ''--- | ---'']
   \<and> parseTableData ''a | b\<newline>\<newline>--- | ---\<newline>  '' = Some \<lparr>headers = [''a'', ''b''], rows = []\<rparr>"
proof -
  have h: "nonblank_lines ''a | b\<newline>\<newline>--- | ---\<newline>  '' = [''a | b'', ''--- | ---'']" by code_simp
  have c: "split_cells ''a | b'' = [''a'', ''b'']" by code_simp
  from header_only_table [OF h] h c show ?thesis by simp
qed

section \<open>Properties of the block scanner\<close>

lemma takeWhile_stop: "\<not> P x \<Longrightarrow> takeWhile P (g @ x # r) = takeWhile P g"
  by (induction g) auto

lemma dropWhile_stop: "\<not> P x \<Longrightarrow> dropWhile P (g @ x # r) = dropWhile P g @ x # r"
  by (induction g) auto

lemma takeWhile_all: "list_all P g \<Longrightarrow> \<not> P x \<Longrightarrow> takeWhile P (g @ x # r) = g"
  by (induction g) auto

lemma dropWhile_all: "list_all P g \<Longrightarrow> \<not> P x \<Longrightarrow> dropWhile P (g @ x # r) = x # r"
  by (induction g) auto

lemma not_upper [simp]:
  "\<not> is_upper (CHR ''['')" "\<not> is_upper (CHR '']'')" "\<not> is_upper (CHR ''='')"
  by (simp_all add: is_upper_def)

lemma not_param_char [simp]:
  "\<not> is_param_char (CHR ''['')" "\<not> is_param_char (CHR '']'')"
  by (simp_all add: is_param_char_def)

lemma parse_open_marker:
  assumes "tag_name tag" "param_ok param"
  shows "parse_open (open_marker tag param @ r) = Some (tag, param, r)"
proof (cases param)
  case None
  with assms show ?thesis
    by (simp add: parse_open_def open_marker_def tag_name_def takeWhile_all dropWhile_all)
next
  case (Some p)
  with assms show ?thesis
    by (simp add: parse_open_def open_marker_def tag_name_def param_ok_def
        takeWhile_all dropWhile_all)
qed

lemma parse_open_Some:
  assumes "parse_open s = Some (tag, param, r)"
  shows "tag_name tag \<and> param_ok param \<and> s = open_marker tag param @ r"
proof -
  from assms obtain s1 where s: "s = CHR ''['' # s1"
    by (cases s) (auto simp: parse_open_def split: if_splits)
  from assms s have tag: "tag = takeWhile is_upper s1" and ne: "tag \<noteq> []"
    by (auto simp: parse_open_def Let_def split: if_splits list.splits)
  have up: "list_all is_upper tag"
    unfolding tag by (simp add: list_all_iff) (metis set_takeWhileD)
  have s1: "s1 = tag @ dropWhile is_upper s1" by (simp add: tag)
  show ?thesis
  proof (cases param)
    case None
    with assms s ne have "dropWhile is_upper s1 = CHR '']'' # r"
      by (auto simp: parse_open_def Let_def split: if_splits list.splits)
    with s s1 None ne up show ?thesis
      by (simp add: tag_name_def param_ok_def open_marker_def)
  next
    case (Some p)
    with assms s ne obtain s3 where d: "dropWhile is_upper s1 = CHR ''='' # s3"
      and p: "p = takeWhile is_param_char s3" "p \<noteq> []"
      and e: "dropWhile is_param_char s3 = CHR '']'' # r"
      by (auto simp: parse_open_def Let_def split: if_splits list.splits)
    have "list_all is_param_char p"
      unfolding p by (simp add: list_all_iff) (metis set_takeWhileD)
    moreover have "s3 = p @ dropWhile is_param_char s3" by (simp add: p)
    ultimately show ?thesis using s s1 d p e Some ne up
      by (simp add: tag_name_def param_ok_def open_marker_def)
  qed
qed

lemma parse_open_straddle:
  assumes "parse_open (c # g) = None"
  shows "parse_open ((c # g) @ CHR ''['' # r) = None"
proof (cases "dropWhile is_upper g")
  case Nil
  then show ?thesis
    by (simp add: parse_open_def Let_def takeWhile_stop dropWhile_stop)
next
  case (Cons d s3)
  show ?thesis
  proof (cases "dropWhile is_param_char s3")
    case Nil
    with Cons assms show ?thesis
      by (simp add: parse_open_def Let_def takeWhile_stop dropWhile_stop split: if_splits)
  next
    case inner: (Cons e s5)
    with Cons assms show ?thesis
      by (simp add: parse_open_def Let_def takeWhile_stop dropWhile_stop split: if_splits)
  qed
qed

lemma startsWith_append: "length cl \<le> length s \<Longrightarrow> startsWith (s @ r) cl = startsWith s cl"
  by (simp add: startsWith_def)

lemma find_close_Some:
  "find_close cl s = Some (body, rest) \<Longrightarrow> s = body @ cl @ rest \<and> opaque_body cl body"
proof (induction s arbitrary: body)
  case Nil
  then show ?case by (simp split: if_splits)
next
  case (Cons c cs)
  show ?case
  proof (cases "startsWith (c # cs) cl")
    case True
    with Cons.prems have b: "body = []" and r: "rest = drop (length cl) (c # cs)" by simp_all
    from True have "c # cs = cl @ drop (length cl) (c # cs)"
      unfolding startsWith_def by (metis append_take_drop_id)
    with b r show ?thesis by simp
  next
    case False
    with Cons.prems obtain b' where fc: "find_close cl cs = Some (b', rest)" and b: "body = c # b'"
      by (auto split: option.splits)
    from Cons.IH [OF fc] have cs: "cs = b' @ cl @ rest" and ob: "opaque_body cl b'" by simp_all
    have "startsWith ((c # b') @ cl) cl = startsWith (((c # b') @ cl) @ rest) cl"
      by (rule startsWith_append [symmetric]) simp
    with False cs have "\<not> startsWith ((c # b') @ cl) cl" by simp
    with cs ob b show ?thesis by simp
  qed
qed

lemma find_close_first:
  "opaque_body cl body \<Longrightarrow> cl \<noteq> [] \<Longrightarrow> find_close cl (body @ cl @ rest) = Some (body, rest)"
proof (induction body)
  case Nil
  then obtain c cs where cl: "cl = c # cs" by (cases cl) auto
  have "startsWith (cl @ rest) cl" by (simp add: startsWith_def)
  then show ?case unfolding cl by simp
next
  case (Cons c cs)
  have "startsWith (((c # cs) @ cl) @ rest) cl = startsWith ((c # cs) @ cl) cl"
    by (rule startsWith_append) simp
  with Cons show ?case by simp
qed

lemma closing_not_Nil [simp]: "closing tag \<noteq> []"
  by (simp add: closing_def)

lemma match_at_Some:
  assumes "match_at s = Some (m, rest)"
  shows "tag_name (m1 m) \<and> param_ok (m2 m) \<and> opaque_body (closing (m1 m)) (m3 m)
         \<and> m0 m = block_text (m1 m) (m2 m) (m3 m) \<and> s = m0 m @ rest"
proof -
  from assms obtain tag param s' body where po: "parse_open s = Some (tag, param, s')"
    and fc: "find_close (closing tag) s' = Some (body, rest)"
    and m: "m = \<lparr>m0 = take (length s - length rest) s, m1 = tag, m2 = param, m3 = body\<rparr>"
    by (auto simp: match_at_def split: option.splits)
  from parse_open_Some [OF po] have t: "tag_name tag" and p: "param_ok param"
    and s: "s = open_marker tag param @ s'" by simp_all
  from find_close_Some [OF fc] have s': "s' = body @ closing tag @ rest"
    and ob: "opaque_body (closing tag) body" by simp_all
  have full: "s = block_text tag param body @ rest"
    by (subst s, subst s') (simp add: block_text_def)
  then have "take (length s - length rest) s = block_text tag param body" by simp
  with t p ob full m show ?thesis by simp
qed

lemma match_at_block:
  assumes "tag_name tag" "param_ok param" "opaque_body (closing tag) body"
  shows "match_at (block_text tag param body @ rest)
       = Some (\<lparr>m0 = block_text tag param body, m1 = tag, m2 = param, m3 = body\<rparr>, rest)"
proof -
  have "parse_open (open_marker tag param @ (body @ closing tag @ rest))
      = Some (tag, param, body @ closing tag @ rest)"
    using assms(1,2) by (rule parse_open_marker)
  moreover have "find_close (closing tag) (body @ closing tag @ rest) = Some (body, rest)"
    using assms(3) by (rule find_close_first) simp
  ultimately show ?thesis by (simp add: match_at_def block_text_def)
qed

lemma match_at_no_open: "parse_open s = None \<Longrightarrow> match_at s = None"
  by (simp add: match_at_def)

lemma block_text_Cons: "block_text tag param body = CHR ''['' # tl (block_text tag param body)"
  by (simp add: block_text_def open_marker_def)

lemma exec_marker_free: "marker_free g \<Longrightarrow> blockRegex_exec g = None"
  by (induction g) (simp_all add: match_at_no_open)

lemma exec_block:
  assumes "marker_free g" "tag_name tag" "param_ok param" "opaque_body (closing tag) body"
  shows "blockRegex_exec (g @ block_text tag param body @ rest)
       = Some (g, \<lparr>m0 = block_text tag param body, m1 = tag, m2 = param, m3 = body\<rparr>, rest)"
  using assms(1)
proof (induction g)
  case Nil
  obtain u where u: "block_text tag param body @ rest = CHR ''['' # u"
    by (simp add: block_text_def open_marker_def)
  from match_at_block [OF assms(2-4), of rest] show ?case unfolding u by simp
next
  case (Cons c g)
  obtain u where u: "block_text tag param body @ rest = CHR ''['' # u"
    by (simp add: block_text_def open_marker_def)
  from Cons.prems have "parse_open (c # g) = None" by simp
  then have "parse_open ((c # g) @ CHR ''['' # u) = None" by (rule parse_open_straddle)
  then have "match_at (c # g @ block_text tag param body @ rest) = None"
    by (simp add: u match_at_no_open)
  with Cons show ?case by simp
qed

lemma exec_Some:
  assumes "blockRegex_exec s = Some (pre, m, rest)"
  shows "s = pre @ m0 m @ rest \<and> match_at (drop (length pre) s) = Some (m, rest)
         \<and> (\<forall>i<length pre. match_at (drop i s) = None)"
  using assms
proof (induction s arbitrary: pre)
  case Nil
  then show ?case by simp
next
  case (Cons c cs)
  show ?case
  proof (cases "match_at (c # cs)")
    case None
    with Cons.prems obtain pre' where ex: "blockRegex_exec cs = Some (pre', m, rest)"
      and pre: "pre = c # pre'"
      by (auto split: option.splits)
    note ih = Cons.IH [OF ex]
    from ih have a: "cs = pre' @ m0 m @ rest" by (rule conjunct1)
    from ih have b: "match_at (drop (length pre') cs) = Some (m, rest)"
      by (rule conjunct2 [THEN conjunct1])
    from ih have n: "\<forall>i<length pre'. match_at (drop i cs) = None"
      by (rule conjunct2 [THEN conjunct2])
    have f3: "\<forall>i<length pre. match_at (drop i (c # cs)) = None"
    proof (intro allI impI)
      fix i assume i: "i < length pre"
      show "match_at (drop i (c # cs)) = None"
      proof (cases i)
        case 0
        with None show ?thesis by simp
      next
        case (Suc j)
        with i pre have "j < length pre'" by simp
        with n Suc show ?thesis by simp
      qed
    qed
    have f1: "c # cs = pre @ m0 m @ rest" using a pre by simp
    have f2: "match_at (drop (length pre) (c # cs)) = Some (m, rest)" using b pre by simp
    from f1 f2 f3 show ?thesis by - (intro conjI, assumption+)
  next
    case (Some a)
    with Cons.prems have pre: "pre = []" and ma: "match_at (c # cs) = Some (m, rest)"
      by (cases a; simp)+
    from match_at_Some [OF ma] pre ma show ?thesis by simp
  qed
qed

lemma renderContent_Some:
  "blockRegex_exec s = Some (pre, m, rest) \<Longrightarrow>
   renderContent s = renderText (trim pre) @ render_block m # renderContent rest"
  by (subst renderContent.simps) simp

lemma renderContent_None:
  "blockRegex_exec s = None \<Longrightarrow> renderContent s = renderText (trim s)"
  by (subst renderContent.simps) simp

lemma exec_block_of:
  "marker_free g \<Longrightarrow> well_formed b \<Longrightarrow>
   blockRegex_exec (g @ m0 (block_of b) @ rest) = Some (g, block_of b, rest)"
  by (cases b) (simp add: well_formed_def block_of_def exec_block)

lemma renderContent_document:
  "balanced gap bs \<Longrightarrow>
   renderContent (document gap bs)
     = renderText (trim gap)
       @ concat (map (\<lambda>(b, g). render_block (block_of b) # renderText (trim g)) bs)"
proof (induction bs arbitrary: gap)
  case Nil
  then show ?case by (simp add: renderContent_None exec_marker_free)
next
  case (Cons x bs)
  obtain b g where x: "x = (b, g)" by (cases x)
  from Cons.prems x have mf: "marker_free gap" and wf: "well_formed b" and bal: "balanced g bs"
    by simp_all
  have "renderContent (document gap (x # bs))
      = renderText (trim gap) @ render_block (block_of b) # renderContent (document g bs)"
    unfolding x document.simps by (rule renderContent_Some) (rule exec_block_of [OF mf wf])
  with Cons.IH [OF bal] x show ?case by simp
qed

lemma length_renderText: "length (renderText t) = (if t = [] then 0 else 1)"
  by (simp add: renderText_def)

text \<open>
  Claim C2. For a balanced text (a gap, then well-formed blocks each followed by a gap,
  no gap holding an opening marker) \<open>renderContent\<close> returns as many nodes as there are
  blocks plus gaps that are not empty after trimming; a gap that is empty after
  trimming gives no node.
\<close>

theorem block_count:
  assumes "balanced gap bs"
  shows "length (renderContent (document gap bs))
       = length bs + length (filter (\<lambda>g. trim g \<noteq> []) (gap # map snd bs))"
proof -
  have "length (concat (map (\<lambda>(b, g). render_block (block_of b) # renderText (trim g)) bs))
      = length bs + length (filter (\<lambda>g. trim g \<noteq> []) (map snd bs))"
    by (induction bs) (auto simp: length_renderText)
  with renderContent_document [OF assms] show ?thesis
    by (simp add: length_renderText)
qed

theorem block_count_witness:
  "balanced ''intro '' [((''CODE'', Some ''sql'', ''SELECT 1''), ''  ''), ((''FOO'', None, ''x''), '' tail'')]
   \<and> length (renderContent ''intro [CODE=sql]SELECT 1[/CODE]  [FOO]x[/FOO] tail'') = 4"
proof -
  let ?bs = "[((''CODE'', Some ''sql'', ''SELECT 1''), ''  ''), ((''FOO'', None, ''x''), '' tail'')]"
  have b: "balanced ''intro '' ?bs" by code_simp
  have d: "document ''intro '' ?bs = ''intro [CODE=sql]SELECT 1[/CODE]  [FOO]x[/FOO] tail''"
    by code_simp
  have n: "length ?bs + length (filter (\<lambda>g. trim g \<noteq> []) (''intro '' # map snd ?bs)) = 4"
    by code_simp
  from block_count [OF b] have "length (renderContent ''intro [CODE=sql]SELECT 1[/CODE]  [FOO]x[/FOO] tail'') = 4"
    unfolding d n .
  with b show ?thesis by (rule conjI)
qed

lemma opaque_body_first:
  "opaque_body cl body \<Longrightarrow> \<forall>i<length body. \<not> startsWith (drop i (body @ cl @ rest)) cl"
proof (induction body)
  case Nil
  show ?case by simp
next
  case (Cons c cs)
  have e: "startsWith (((c # cs) @ cl) @ rest) cl = startsWith ((c # cs) @ cl) cl"
    by (rule startsWith_append) simp
  show ?case
  proof (intro allI impI)
    fix i assume i: "i < length (c # cs)"
    show "\<not> startsWith (drop i ((c # cs) @ cl @ rest)) cl"
    proof (cases i)
      case 0
      with Cons.prems e show ?thesis by simp
    next
      case (Suc j)
      with i Cons show ?thesis by simp
    qed
  qed
qed

text \<open>
  Claim C6. Whenever the scanner finds a block, the matched text is an opening marker
  \<open>[TAG]\<close> or \<open>[TAG=param]\<close>, a body, and the closing marker \<open>[/TAG]\<close> of exactly the tag
  of the opening marker; that closing marker stands at no earlier place after the
  opening marker, so the block ends at the first one; the body is handed to the block
  as it is, whatever markers it holds, and scanning goes on after the closing marker. A
  closing marker of another tag does not end the block: in
  \<open>[CODE]a[/TABLE]b[TABLE]c[/CODE]d[/TABLE]\<close> the body of the code block is
  \<open>a[/TABLE]b[TABLE]c\<close>.
\<close>

theorem closed_by_first_same_tag:
  assumes "blockRegex_exec content = Some (pre, m, rest)"
  shows "tag_name (m1 m) \<and> param_ok (m2 m)
       \<and> m0 m = open_marker (m1 m) (m2 m) @ m3 m @ closing (m1 m)
       \<and> content = pre @ m0 m @ rest
       \<and> (\<forall>i<length (m3 m). \<not> startsWith (drop i (m3 m @ closing (m1 m) @ rest)) (closing (m1 m)))
       \<and> renderContent content = renderText (trim pre) @ render_block m # renderContent rest
       \<and> renderContent ''[CODE]a[/TABLE]b[TABLE]c[/CODE]d[/TABLE]''
           = [Pre ''p-3 border rounded'' [] ''a[/TABLE]b[TABLE]c'', Paragraph [TextNode ''d[/TABLE]'']]"
proof -
  from exec_Some [OF assms] have c: "content = pre @ m0 m @ rest"
    and ma: "match_at (drop (length pre) content) = Some (m, rest)" by blast+
  from match_at_Some [OF ma] have t: "tag_name (m1 m)" and p: "param_ok (m2 m)"
    and ob: "opaque_body (closing (m1 m)) (m3 m)"
    and m0: "m0 m = block_text (m1 m) (m2 m) (m3 m)" by blast+
  have ex: "renderContent ''[CODE]a[/TABLE]b[TABLE]c[/CODE]d[/TABLE]''
           = [Pre ''p-3 border rounded'' [] ''a[/TABLE]b[TABLE]c'', Paragraph [TextNode ''d[/TABLE]'']]"
    by code_simp
  from t p m0 c opaque_body_first [OF ob, of rest] renderContent_Some [OF assms] ex
  show ?thesis unfolding block_text_def by - (intro conjI, assumption+)
qed

theorem closed_by_first_same_tag_witness:
  "blockRegex_exec ''x [A][B]y[/A] z[/B][/A]''
     = Some (''x '', \<lparr>m0 = ''[A][B]y[/A]'', m1 = ''A'', m2 = None, m3 = ''[B]y''\<rparr>, '' z[/B][/A]'')
   \<and> renderContent ''x [A][B]y[/A] z[/B][/A]''
     = [Paragraph [TextNode ''x''],
        Pre ''bg-light p-2 border rounded'' ''text-warning'' ''Unknown block type:\<newline>[A][B]y[/A]'',
        Paragraph [TextNode ''z[/B][/A]'']]"
proof -
  have h: "blockRegex_exec ''x [A][B]y[/A] z[/B][/A]''
     = Some (''x '', \<lparr>m0 = ''[A][B]y[/A]'', m1 = ''A'', m2 = None, m3 = ''[B]y''\<rparr>, '' z[/B][/A]'')"
    by code_simp
  have r: "renderContent '' z[/B][/A]'' = [Paragraph [TextNode ''z[/B][/A]'']]" by code_simp
  have t: "renderText (trim ''x '') = [Paragraph [TextNode ''x'']]" by code_simp
  have b: "render_block \<lparr>m0 = ''[A][B]y[/A]'', m1 = ''A'', m2 = None, m3 = ''[B]y''\<rparr>
     = Pre ''bg-light p-2 border rounded'' ''text-warning'' ''Unknown block type:\<newline>[A][B]y[/A]''"
    by code_simp
  from closed_by_first_same_tag [OF h] have
    "renderContent ''x [A][B]y[/A] z[/B][/A]''
       = renderText (trim ''x '') @ render_block \<lparr>m0 = ''[A][B]y[/A]'', m1 = ''A'', m2 = None, m3 = ''[B]y''\<rparr>
         # renderContent '' z[/B][/A]''"
    by (elim conjE)
  with h r t b show ?thesis by simp
qed

text \<open>
  Claim C4. When the body of a \<open>TABLE\<close> block has fewer than two non-blank lines, the
  table parser returns no table; the block of such a match is the \<open>pre\<close> in the error
  style (\<open>text-danger\<close>) whose text is the message followed by the whole matched text;
  and the enclosing \<open>renderContent\<close> emits, between the text before the block and the
  rendering of the text after it, exactly that one node and no table.
\<close>

theorem short_table_is_error:
  assumes "length (nonblank_lines body) < 2"
  shows "parseTableData body = None
       \<and> (\<forall>m. m1 m = ''TABLE'' \<and> m3 m = body \<longrightarrow>
            render_block m = Pre ''bg-light p-2 border rounded'' ''text-danger''
                               (''Could not parse table block:\<newline>'' @ m0 m))
       \<and> (\<forall>pre param rest.
            marker_free pre \<and> param_ok param \<and> opaque_body ''[/TABLE]'' body \<longrightarrow>
            renderContent (pre @ block_text ''TABLE'' param body @ rest)
              = renderText (trim pre)
                @ Pre ''bg-light p-2 border rounded'' ''text-danger''
                    (''Could not parse table block:\<newline>'' @ block_text ''TABLE'' param body)
                # renderContent rest)"
proof -
  from assms have n: "parseTableData body = None"
    by (simp add: parseTableData_lines)
  have r: "render_block m = Pre ''bg-light p-2 border rounded'' ''text-danger''
                               (''Could not parse table block:\<newline>'' @ m0 m)"
    if "m1 m = ''TABLE''" "m3 m = body" for m
    using that n by (simp add: render_block_def)
  have r': "\<forall>m. m1 m = ''TABLE'' \<and> m3 m = body \<longrightarrow>
            render_block m = Pre ''bg-light p-2 border rounded'' ''text-danger''
                               (''Could not parse table block:\<newline>'' @ m0 m)"
  proof (intro allI impI, elim conjE)
    fix m :: block_match assume "m1 m = ''TABLE''" "m3 m = body"
    then show "render_block m = Pre ''bg-light p-2 border rounded'' ''text-danger''
                               (''Could not parse table block:\<newline>'' @ m0 m)"
      by (rule r)
  qed
  have c: "\<forall>pre param rest.
            marker_free pre \<and> param_ok param \<and> opaque_body ''[/TABLE]'' body \<longrightarrow>
            renderContent (pre @ block_text ''TABLE'' param body @ rest)
              = renderText (trim pre)
                @ Pre ''bg-light p-2 border rounded'' ''text-danger''
                    (''Could not parse table block:\<newline>'' @ block_text ''TABLE'' param body)
                # renderContent rest"
  proof (intro allI impI, elim conjE)
    fix pre param rest
    assume mf: "marker_free pre" and po: "param_ok param" and ob: "opaque_body ''[/TABLE]'' body"
    let ?m = "\<lparr>m0 = block_text ''TABLE'' param body, m1 = ''TABLE'', m2 = param, m3 = body\<rparr>"
    have tn: "tag_name ''TABLE''" by (simp add: tag_name_def is_upper_def)
    have cl: "closing ''TABLE'' = ''[/TABLE]''" by (simp add: closing_def)
    have "blockRegex_exec (pre @ block_text ''TABLE'' param body @ rest) = Some (pre, ?m, rest)"
      using mf tn po by (rule exec_block) (simp add: cl ob)
    from renderContent_Some [OF this] r [of ?m]
    show "renderContent (pre @ block_text ''TABLE'' param body @ rest)
              = renderText (trim pre)
                @ Pre ''bg-light p-2 border rounded'' ''text-danger''
                    (''Could not parse table block:\<newline>'' @ block_text ''TABLE'' param body)
                # renderContent rest"
      by simp
  qed
  from n r' c show ?thesis by - (intro conjI, assumption+)
qed

theorem short_table_is_error_witness:
  "length (nonblank_lines ''a | b'') < 2
   \<and> renderContent ''see [TABLE]a | b[/TABLE]''
       = [Paragraph [TextNode ''see''],
          Pre ''bg-light p-2 border rounded'' ''text-danger''
            ''Could not parse table block:\<newline>[TABLE]a | b[/TABLE]'']"
proof -
  have h: "length (nonblank_lines ''a | b'') < 2" by code_simp
  have p: "marker_free ''see '' \<and> param_ok None \<and> opaque_body ''[/TABLE]'' ''a | b''" by code_simp
  have b: "block_text ''TABLE'' None ''a | b'' = ''[TABLE]a | b[/TABLE]''" by code_simp
  have t: "renderText (trim ''see '') = [Paragraph [TextNode ''see'']]" by code_simp
  have e: "renderContent [] = []" by code_simp
  from short_table_is_error [OF h, THEN conjunct2, THEN conjunct2, rule_format, OF p]
  have "renderContent (''see '' @ block_text ''TABLE'' None ''a | b'' @ [])
              = renderText (trim ''see '')
                @ Pre ''bg-light p-2 border rounded'' ''text-danger''
                    (''Could not parse table block:\<newline>'' @ block_text ''TABLE'' None ''a | b'')
                # renderContent []" .
  then show ?thesis unfolding b t e using h by simp
qed

section \<open>Properties of code blocks\<close>

lemma toLowerCase_char_space: "toLowerCase_char d = CHR '' '' \<Longrightarrow> d = CHR '' ''"
proof -
  assume a: "toLowerCase_char d = CHR '' ''"
  let ?n = "of_char d :: nat"
  show ?thesis
  proof (cases "(65 \<le> ?n \<and> ?n \<le> 90) \<or> (192 \<le> ?n \<and> ?n \<le> 214) \<or> (216 \<le> ?n \<and> ?n \<le> 222)")
    case True
    with a have "char_of (?n + 32) = CHR '' ''" by (simp add: toLowerCase_char_def Let_def)
    then have "(of_char (char_of (?n + 32) :: char) :: nat) = of_char (CHR '' '')" by (rule arg_cong)
    then have m: "(?n + 32) mod 256 = 32" by (simp add: of_char_of)
    from True have "?n + 32 < 256" by linarith
    then have "(?n + 32) mod 256 = ?n + 32" by (rule mod_less)
    with m True have False by linarith
    then show ?thesis ..
  next
    case False
    with a show ?thesis by (simp add: toLowerCase_char_def Let_def)
  qed
qed

lemma space_is_space: "is_space (CHR '' '')"
  by (simp add: is_space_def)

lemma startsWith_Nil: "startsWith s []"
  by (simp add: startsWith_def)

lemma startsWith_Cons:
  "startsWith s (c # p) = (case s of [] \<Rightarrow> False | x # xs \<Rightarrow> x = c \<and> startsWith xs p)"
  by (cases s) (auto simp: startsWith_def)

lemma startsWith_sql:
  assumes "startsWith (toLowerCase t) ''sql ''"
  shows "\<exists>a b c r. t = a # b # c # CHR '' '' # r \<and> toLowerCase [a, b, c] = ''sql''"
proof -
  from assms obtain a t1 where t: "t = a # t1" and a: "toLowerCase_char a = CHR ''s''"
    and s1: "startsWith (toLowerCase t1) ''ql ''"
    by (cases t) (simp_all add: startsWith_Cons toLowerCase_def)
  from s1 obtain b t2 where t1: "t1 = b # t2" and b: "toLowerCase_char b = CHR ''q''"
    and s2: "startsWith (toLowerCase t2) ''l ''"
    by (cases t1) (simp_all add: startsWith_Cons toLowerCase_def)
  from s2 obtain c t3 where t2: "t2 = c # t3" and c: "toLowerCase_char c = CHR ''l''"
    and s3: "startsWith (toLowerCase t3) '' ''"
    by (cases t2) (simp_all add: startsWith_Cons toLowerCase_def)
  from s3 obtain d r where t3: "t3 = d # r" and d: "toLowerCase_char d = CHR '' ''"
    by (cases t3) (simp_all add: startsWith_Cons toLowerCase_def)
  from toLowerCase_char_space [OF d] t t1 t2 t3 a b c show ?thesis
    by (simp add: toLowerCase_def)
qed

lemma sql_prefix:
  assumes "startsWith (toLowerCase t) ''sql ''"
  shows "match_sql_prefix t = Some (take 3 t @ takeWhile is_space (drop 3 t))"
proof -
  from startsWith_sql [OF assms] obtain a b c r where t: "t = a # b # c # CHR '' '' # r"
    and l: "toLowerCase [a, b, c] = ''sql''" by (elim exE conjE)
  have t3: "take 3 t = [a, b, c]" and d3: "drop 3 t = CHR '' '' # r"
    by (simp_all add: t numeral_3_eq_3)
  show ?thesis unfolding match_sql_prefix_def t3 d3 using l space_is_space by simp
qed

lemma drop_takeWhile: "drop (length (takeWhile P xs)) xs = dropWhile P xs"
  by (induction xs) auto

lemma code_text_sql:
  assumes "toLowerCase p = ''sql''"
  shows "code_text (Some p) body =
     (if startsWith (toLowerCase (trim body)) ''sql ''
      then dropWhile is_space (drop 3 (trim body)) else trim body)"
proof (cases "startsWith (toLowerCase (trim body)) ''sql ''")
  case True
  let ?t = "trim body"
  let ?w = "takeWhile is_space (drop 3 ?t)"
  from True have "length (take (length ''sql '') (toLowerCase ?t)) = length ''sql ''"
    unfolding startsWith_def by (rule arg_cong)
  then have len: "3 \<le> length ?t" by (simp add: toLowerCase_def)
  then have l3: "length (take 3 ?t) = 3" by simp
  have "length ?w \<le> length (drop 3 ?t)" by (rule length_takeWhile_le)
  with len have lw: "3 + length ?w \<le> length ?t" by simp
  have "substring ?t (length (take 3 ?t @ ?w)) (length ?t) = drop (3 + length ?w) ?t"
    using len lw by (simp add: substring_def Let_def)
  also have "\<dots> = drop (length ?w) (drop 3 ?t)" by (simp add: add.commute)
  also have "\<dots> = dropWhile is_space (drop 3 ?t)" by (rule drop_takeWhile)
  finally show ?thesis using True assms
    by (simp add: code_text_def Let_def sql_prefix [OF True])
next
  case False
  then show ?thesis by (simp add: code_text_def Let_def)
qed

text \<open>
  Claim C5, as amended. For a \<open>CODE\<close> block whose parameter lower-cases to \<open>sql\<close>: when
  the trimmed body begins, ignoring case, with \<open>sql\<close> followed by a space character, the
  three letters and all white space after them are stripped; otherwise the trimmed
  body is stored unchanged. In particular \<open>[CODE=sql]sql SELECT 1[/CODE]\<close> and
  \<open>[CODE=sql]SELECT 1[/CODE]\<close> both give the code block of language \<open>sql\<close> with the
  text \<open>SELECT 1\<close>.
\<close>

theorem sql_prefix_stripped:
  assumes "toLowerCase p = ''sql''"
  shows "render_block \<lparr>m0 = whole, m1 = ''CODE'', m2 = Some p, m3 = body\<rparr>
       = Pre ''p-3 border rounded'' ''language-sql''
           (if startsWith (toLowerCase (trim body)) ''sql ''
            then dropWhile is_space (drop 3 (trim body)) else trim body)
     \<and> renderContent ''[CODE=sql]sql SELECT 1[/CODE]''
         = [Pre ''p-3 border rounded'' ''language-sql'' ''SELECT 1'']
     \<and> renderContent ''[CODE=sql]SELECT 1[/CODE]''
         = [Pre ''p-3 border rounded'' ''language-sql'' ''SELECT 1'']"
proof -
  have a: "renderContent ''[CODE=sql]sql SELECT 1[/CODE]''
         = [Pre ''p-3 border rounded'' ''language-sql'' ''SELECT 1'']" by code_simp
  have b: "renderContent ''[CODE=sql]SELECT 1[/CODE]''
         = [Pre ''p-3 border rounded'' ''language-sql'' ''SELECT 1'']" by code_simp
  from assms have "render_block \<lparr>m0 = whole, m1 = ''CODE'', m2 = Some p, m3 = body\<rparr>
       = Pre ''p-3 border rounded'' ''language-sql''
           (if startsWith (toLowerCase (trim body)) ''sql ''
            then dropWhile is_space (drop 3 (trim body)) else trim body)"
    by (simp add: render_block_def code_class_def code_text_sql)
  with a b show ?thesis by - (intro conjI, assumption+)
qed

theorem sql_prefix_stripped_witness:
  "toLowerCase ''SQL'' = ''sql''
   \<and> render_block \<lparr>m0 = ''[CODE=SQL] Sql   SELECT 1 [/CODE]'', m1 = ''CODE'', m2 = Some ''SQL'',
         m3 = '' Sql   SELECT 1 ''\<rparr>
       = Pre ''p-3 border rounded'' ''language-sql'' ''SELECT 1''"
proof -
  have h: "toLowerCase ''SQL'' = ''sql''" by code_simp
  have e: "(if startsWith (toLowerCase (trim '' Sql   SELECT 1 '')) ''sql ''
            then dropWhile is_space (drop 3 (trim '' Sql   SELECT 1 '')) else trim '' Sql   SELECT 1 '')
       = ''SELECT 1''" by code_simp
  from sql_prefix_stripped [OF h, of "''[CODE=SQL] Sql   SELECT 1 [/CODE]''" "'' Sql   SELECT 1 ''"]
  have "render_block \<lparr>m0 = ''[CODE=SQL] Sql   SELECT 1 [/CODE]'', m1 = ''CODE'', m2 = Some ''SQL'',
         m3 = '' Sql   SELECT 1 ''\<rparr>
       = Pre ''p-3 border rounded'' ''language-sql'' ''SELECT 1''"
    unfolding e by (rule conjunct1)
  with h show ?thesis by (rule conjI)
qed

text \<open>
  Claim C5 as stated fails when the white space after \<open>sql\<close> is not a space: with a
  line break after \<open>sql\<close> the parameter lower-cases to \<open>sql\<close>, the trimmed body begins
  with \<open>sql\<close> followed by white space, and the text is stored with its prefix.
\<close>

theorem sql_newline_not_stripped:
  "toLowerCase ''sql'' = ''sql''
   \<and> toLowerCase (take 3 (trim ''sql\<newline>SELECT 1'')) = ''sql''
   \<and> is_space (hd (drop 3 (trim ''sql\<newline>SELECT 1'')))
   \<and> renderContent ''[CODE=sql]sql\<newline>SELECT 1[/CODE]''
       = [Pre ''p-3 border rounded'' ''language-sql'' ''sql\<newline>SELECT 1'']"
proof -
  have a: "toLowerCase ''sql'' = ''sql''" by code_simp
  have b: "toLowerCase (take 3 (trim ''sql\<newline>SELECT 1'')) = ''sql''" by code_simp
  have c: "is_space (hd (drop 3 (trim ''sql\<newline>SELECT 1'')))" by code_simp
  have d: "renderContent ''[CODE=sql]sql\<newline>SELECT 1[/CODE]''
       = [Pre ''p-3 border rounded'' ''language-sql'' ''sql\<newline>SELECT 1'']" by code_simp
  from a b c d show ?thesis by - (intro conjI, assumption+)
qed

section \<open>Properties of the study session\<close>

lemma length_swap [simp]: "length (swap i j a) = length a"
  by (simp add: swap_def Let_def)

lemma length_shuffle_loop [simp]: "length (shuffle_loop random i a) = length a"
proof (induction random i a rule: shuffle_loop.induct)
  case (1 random i a)
  then show ?case by (subst shuffle_loop.simps) simp
qed

lemma length_shuffleArray [simp]: "length (shuffleArray random a) = length a"
  by (simp add: shuffleArray_def)

lemma mset_shuffle_loop:
  "\<forall>k. random k \<le> k \<Longrightarrow> i < length a \<Longrightarrow> mset (shuffle_loop random i a) = mset a"
proof (induction random i a rule: shuffle_loop.induct)
  case (1 random i a)
  show ?case
  proof (cases "i > 0")
    case True
    from "1.prems" have j: "random i < length a"
      by (meson le_less_trans)
    have "mset (swap i (random i) a) = mset a"
      using "1.prems"(2) j by (simp add: swap_def Let_def mset_swap)
    moreover have "mset (shuffle_loop random (i - 1) (swap i (random i) a)) = mset (swap i (random i) a)"
      using True "1.prems" by (intro "1.IH") simp_all
    ultimately show ?thesis using True by (subst shuffle_loop.simps) simp
  next
    case False
    then show ?thesis by (subst shuffle_loop.simps) simp
  qed
qed

lemma mset_shuffleArray: "\<forall>k. random k \<le> k \<Longrightarrow> mset (shuffleArray random a) = mset a"
proof (cases a)
  case Nil
  then show ?thesis by (simp add: shuffleArray_def shuffle_loop.simps)
next
  case (Cons x xs)
  assume "\<forall>k. random k \<le> k"
  then show ?thesis unfolding shuffleArray_def by (rule mset_shuffle_loop) (simp add: Cons)
qed

lemma inv_init: "page_load s \<Longrightarrow> session_inv (initializeStudySession random f s)"
  by (cases f)
    (auto simp: page_load_def session_inv_def initializeStudySession_def loadCard_def Let_def)

lemma inv_step: "session_inv s \<Longrightarrow> session_inv (step e s)"
proof (cases e)
  case ClickAction
  assume "session_inv s"
  then show ?thesis unfolding ClickAction
    by (auto simp: session_inv_def action_enabled_def handleActionClick_def split: if_splits)
next
  case (ClickRating r)
  assume "session_inv s"
  then show ?thesis unfolding ClickRating
    by (auto simp: session_inv_def rating_enabled_def handleRatingClick_def Let_def
        split: if_splits)
next
  case ReviewOk
  assume "session_inv s"
  then show ?thesis unfolding ReviewOk
    by (cases "pending s")
      (auto simp: session_inv_def review_succeeded_def loadCard_def Let_def split: if_splits)
next
  case (ReviewFailed msg)
  assume "session_inv s"
  then show ?thesis unfolding ReviewFailed
    by (cases "pending s")
      (auto simp: session_inv_def review_failed_def split: if_splits)
qed

lemma reachable_inv: "reachable s \<Longrightarrow> session_inv s"
  by (induction rule: reachable.induct) (simp_all add: inv_init inv_step)

lemma run_Nil [simp]: "run [] s = s"
  by (simp add: run_def)

lemma run_Cons [simp]: "run (e # es) s = run es (step e s)"
  by (simp add: run_def)

lemma run_append: "run (es @ es') s = run es' (run es s)"
  by (simp add: run_def)

lemma script_Nil [simp]: "script [] = []"
  by (simp add: script_def)

lemma script_Cons:
  "script (rating # ratings) = ClickAction # ClickRating rating # ReviewOk # script ratings"
  by (simp add: script_def)

text \<open>One round from the front of card \<open>k\<close>.\<close>

lemma round_step:
  fixes s :: session and rating :: rating
  assumes "listening s" "front_shown s"
  defines "s' \<equiv> step ReviewOk (step (ClickRating rating) (step ClickAction s))"
  shows "cards s' = cards s"
    and "currentCardIndex s' = currentCardIndex s + 1"
    and "listening s'"
    and "posted s' = posted s @ [(card_id (cards s ! currentCardIndex s), rating)]"
    and "currentCardIndex s + 1 < length (cards s) \<Longrightarrow>
           front_shown s' \<and> loaded s' = loaded s @ [cards s ! (currentCardIndex s + 1)]
           \<and> sessionCompleteHidden s' = sessionCompleteHidden s"
    and "currentCardIndex s + 1 = length (cards s) \<Longrightarrow>
           complete s' \<and> loaded s' = loaded s"
  using assms(1,2) unfolding s'_def
  by (simp_all add: front_shown_def complete_def action_enabled_def rating_enabled_def
      handleActionClick_def handleRatingClick_def review_succeeded_def loadCard_def Let_def)

lemma run_script:
  assumes "listening s" "front_shown s" "currentCardIndex s + length ratings \<le> length (cards s)"
  shows "cards (run (script ratings) s) = cards s
       \<and> currentCardIndex (run (script ratings) s) = currentCardIndex s + length ratings
       \<and> map fst (posted (run (script ratings) s))
           = map fst (posted s) @ map card_id (take (length ratings) (drop (currentCardIndex s) (cards s)))
       \<and> map snd (posted (run (script ratings) s)) = map snd (posted s) @ ratings
       \<and> loaded (run (script ratings) s)
           = loaded s @ take (length ratings) (drop (currentCardIndex s + 1) (cards s))
       \<and> (if currentCardIndex s + length ratings < length (cards s)
          then front_shown (run (script ratings) s)
               \<and> sessionCompleteHidden (run (script ratings) s) = sessionCompleteHidden s
          else complete (run (script ratings) s))"
  using assms
proof (induction ratings arbitrary: s)
  case Nil
  then show ?case by (simp add: front_shown_def)
next
  case (Cons r rs)
  let ?k = "currentCardIndex s"
  define s1 where "s1 = step ReviewOk (step (ClickRating r) (step ClickAction s))"
  note rs = round_step [OF Cons.prems(1,2), of r, folded s1_def]
  from Cons.prems(3) have k: "?k < length (cards s)" by simp
  have e: "run (script (r # rs)) s = run (script rs) s1" by (simp add: script_Cons s1_def)
  have d: "take (length (r # rs)) (drop ?k (cards s))
         = cards s ! ?k # take (length rs) (drop (?k + 1) (cards s))"
    using k by (simp add: Cons_nth_drop_Suc [symmetric])
  show ?case
  proof (cases "?k + 1 < length (cards s)")
    case True
    from rs(5) [OF True] have f: "front_shown s1"
      and l: "loaded s1 = loaded s @ [cards s ! (?k + 1)]"
      and h: "sessionCompleteHidden s1 = sessionCompleteHidden s" by simp_all
    have b: "currentCardIndex s1 + length rs \<le> length (cards s1)"
      using Cons.prems(3) rs(1,2) by simp
    have d2: "take (length (r # rs)) (drop (?k + 1) (cards s))
         = cards s ! (?k + 1) # take (length rs) (drop (?k + 1 + 1) (cards s))"
      using True by (simp add: Cons_nth_drop_Suc [symmetric])
    note ih = Cons.IH [OF rs(3) f b, unfolded rs(1) rs(2) rs(4) l h]
    from ih have c1: "cards (run (script (r # rs)) s) = cards s"
      unfolding e by (rule conjunct1)
    from ih have c2: "currentCardIndex (run (script (r # rs)) s) = ?k + length (r # rs)"
      unfolding e by simp
    from ih have c3: "map fst (posted (run (script (r # rs)) s))
           = map fst (posted s) @ map card_id (take (length (r # rs)) (drop ?k (cards s)))"
      unfolding e d by simp
    from ih have c4: "map snd (posted (run (script (r # rs)) s)) = map snd (posted s) @ r # rs"
      unfolding e by simp
    from ih have c5: "loaded (run (script (r # rs)) s)
           = loaded s @ take (length (r # rs)) (drop (?k + 1) (cards s))"
      unfolding e d2 by simp
    from ih have c6: "if ?k + length (r # rs) < length (cards s)
          then front_shown (run (script (r # rs)) s)
               \<and> sessionCompleteHidden (run (script (r # rs)) s) = sessionCompleteHidden s
          else complete (run (script (r # rs)) s)"
      unfolding e by simp
    from c1 c2 c3 c4 c5 c6 show ?thesis by - (intro conjI, assumption+)
  next
    case False
    with Cons.prems(3) k have last: "?k + 1 = length (cards s)" by simp
    have "?k + Suc (length rs) \<le> length (cards s)" using Cons.prems(3) by simp
    with last have "length rs = 0" by linarith
    then have n: "rs = []" by simp
    have e': "run (script [r]) s = s1" using e by (simp add: n)
    from rs(6) [OF last] have c: "complete s1" and l: "loaded s1 = loaded s" by simp_all
    from last have dr: "drop (?k + 1) (cards s) = []" by simp
    have d': "take (length [r]) (drop ?k (cards s)) = [cards s ! ?k]"
      using d dr by (simp add: n)
    from rs(1) have c1: "cards (run (script [r]) s) = cards s" unfolding e' .
    from rs(2) have c2: "currentCardIndex (run (script [r]) s) = ?k + length [r]"
      unfolding e' by simp
    from rs(4) have c3: "map fst (posted (run (script [r]) s))
           = map fst (posted s) @ map card_id (take (length [r]) (drop ?k (cards s)))"
      unfolding e' d' by simp
    from rs(4) have c4: "map snd (posted (run (script [r]) s)) = map snd (posted s) @ [r]"
      unfolding e' by simp
    from l have c5: "loaded (run (script [r]) s)
           = loaded s @ take (length [r]) (drop (?k + 1) (cards s))"
      unfolding e' dr by simp
    from c last have c6: "if ?k + length [r] < length (cards s)
          then front_shown (run (script [r]) s)
               \<and> sessionCompleteHidden (run (script [r]) s) = sessionCompleteHidden s
          else complete (run (script [r]) s)"
      unfolding e' by simp
    from c1 c2 c3 c4 c5 c6 show ?thesis unfolding n by - (intro conjI, assumption+)
  qed
qed

lemma init_due:
  fixes random :: "nat \<Rightarrow> nat" and deckName :: string
  assumes "page_load s0" and "due \<noteq> []"
  defines "s \<equiv> initializeStudySession random (Due deckName due) s0"
  shows "listening s" and "front_shown s" and "cards s = shuffleArray random due"
    and "currentCardIndex s = 0" and "posted s = []"
    and "loaded s = [shuffleArray random due ! 0]"
    and "sessionCompleteHidden s = sessionCompleteHidden s0"
  using assms(1,2) unfolding s_def
  by (simp_all add: page_load_def initializeStudySession_def loadCard_def Let_def front_shown_def)

text \<open>
  Claim C1. A session is started on a page as loaded with a non-empty list of \<open>N\<close> due
  cards, the random source keeping its contract, and the script reveals and rates (the
  request succeeding) as many times as there are ratings given, at most \<open>N\<close>. Then the
  card list is a permutation of the due cards; the index equals the number of ratings,
  so each successful rating advances it by one; one request was posted per rating, in
  order, for the cards in the order of the list; the cards put on the page are the
  first ones of the list, each once. With fewer than \<open>N\<close> ratings the session shows the
  front of the next card with the back not revealed, and the completion screen is as
  the page had it; with exactly \<open>N\<close> ratings the session is complete and the cards
  presented are a permutation of the due cards.
\<close>

theorem scripted_session_completes:
  assumes "page_load s0" and "due \<noteq> []" and "\<forall>i. random i \<le> i"
    and "length ratings \<le> length due"
  shows "let s = run (script ratings) (initializeStudySession random (Due deckName due) s0) in
           mset (cards s) = mset due
         \<and> currentCardIndex s = length ratings
         \<and> map fst (posted s) = map card_id (take (length ratings) (cards s))
         \<and> map snd (posted s) = ratings
         \<and> loaded s = take (length ratings + 1) (cards s)
         \<and> (length ratings < length due \<longrightarrow>
               front_shown s \<and> \<not> isBackVisible s
               \<and> sessionCompleteHidden s = sessionCompleteHidden s0)
         \<and> (length ratings = length due \<longrightarrow> complete s \<and> mset (loaded s) = mset due)"
proof -
  define s1 where "s1 = initializeStudySession random (Due deckName due) s0"
  define s where "s = run (script ratings) s1"
  note i = init_due [OF assms(1,2), of random deckName, folded s1_def]
  have len: "length (cards s1) = length due" by (simp add: i(3))
  have ne: "cards s1 \<noteq> []" using assms(2) len by auto
  have b: "currentCardIndex s1 + length ratings \<le> length (cards s1)"
    using assms(4) by (simp add: i(4) len)
  note r = run_script [OF i(1) i(2) b, folded s_def, unfolded i(4) i(5) i(6) i(7)]
  from r have cs: "cards s = cards s1" by (rule conjunct1)
  have c1: "mset (cards s) = mset due"
    unfolding cs i(3) using assms(3) by (rule mset_shuffleArray)
  from r have c2: "currentCardIndex s = length ratings" by simp
  from r have c3: "map fst (posted s) = map card_id (take (length ratings) (cards s))"
    by (simp add: cs)
  from r have c4: "map snd (posted s) = ratings" by simp
  have hd: "[shuffleArray random due ! 0] = take 1 (cards s1)"
    using ne by (cases "cards s1") (simp_all add: i(3) [symmetric])
  have tk: "take 1 (cards s1) @ take (length ratings) (drop 1 (cards s1))
          = take (length ratings + 1) (cards s1)"
    using ne by (cases "cards s1") simp_all
  from r have "loaded s = [shuffleArray random due ! 0] @ take (length ratings) (drop 1 (cards s1))"
    by simp
  then have c5: "loaded s = take (length ratings + 1) (cards s)"
    unfolding hd tk cs .
  have c6: "length ratings < length due \<longrightarrow>
               front_shown s \<and> \<not> isBackVisible s
               \<and> sessionCompleteHidden s = sessionCompleteHidden s0"
  proof
    assume "length ratings < length due"
    with r have f: "front_shown s" and h: "sessionCompleteHidden s = sessionCompleteHidden s0"
      by (simp_all add: len)
    from f have "\<not> isBackVisible s" by (simp add: front_shown_def)
    with f h show "front_shown s \<and> \<not> isBackVisible s
               \<and> sessionCompleteHidden s = sessionCompleteHidden s0" by simp
  qed
  have c7: "length ratings = length due \<longrightarrow> complete s \<and> mset (loaded s) = mset due"
  proof
    assume eq: "length ratings = length due"
    with r have c: "complete s" by (simp add: len)
    have "length (cards s) \<le> length ratings + 1" by (simp add: cs len eq)
    then have "take (length ratings + 1) (cards s) = cards s" by (rule take_all)
    with c5 c1 have "mset (loaded s) = mset due" by simp
    with c show "complete s \<and> mset (loaded s) = mset due" ..
  qed
  from c1 c2 c3 c4 c5 c6 c7 show ?thesis
    unfolding Let_def s_def [symmetric] s1_def [symmetric] by - (intro conjI, assumption+)
qed

theorem scripted_session_completes_witness:
  "currentCardIndex (run (script [''good'', ''hard''])
      (initializeStudySession (\<lambda>i. 0) (Due ''SQL'' [card_a, card_b]) blank_page)) = 2
   \<and> cards (run (script [''good'', ''hard''])
      (initializeStudySession (\<lambda>i. 0) (Due ''SQL'' [card_a, card_b]) blank_page)) = [card_b, card_a]
   \<and> complete (run (script [''good'', ''hard''])
      (initializeStudySession (\<lambda>i. 0) (Due ''SQL'' [card_a, card_b]) blank_page))"
proof -
  let ?s = "run (script [''good'', ''hard''])
      (initializeStudySession (\<lambda>i. 0) (Due ''SQL'' [card_a, card_b]) blank_page)"
  have p: "page_load blank_page" by (simp add: page_load_def blank_page_def)
  have n: "[card_a, card_b] \<noteq> []" by simp
  have r: "\<forall>i. (\<lambda>i. 0::nat) i \<le> i" by simp
  have l: "length [''good'', ''hard''] \<le> length [card_a, card_b]" by simp
  note t = scripted_session_completes [OF p n r l, of "''SQL''", unfolded Let_def]
  from t have a: "currentCardIndex ?s = 2" by simp
  from t have c: "complete ?s" by simp
  have sh: "shuffleArray (\<lambda>i. 0) [card_a, card_b] = [card_b, card_a]"
    by (simp add: shuffleArray_def shuffle_loop.simps swap_def Let_def)
  note i = init_due [OF p n, of "\<lambda>i. 0" "''SQL''"]
  have bd: "currentCardIndex (initializeStudySession (\<lambda>i. 0) (Due ''SQL'' [card_a, card_b]) blank_page)
              + length [''good'', ''hard'']
            \<le> length (cards (initializeStudySession (\<lambda>i. 0) (Due ''SQL'' [card_a, card_b]) blank_page))"
    by (simp add: i(3,4))
  have b: "cards ?s = [card_b, card_a]"
    using run_script [OF i(1) i(2) bd, THEN conjunct1] by (simp add: i(3) sh)
  from a b c show ?thesis by - (intro conjI, assumption+)
qed

lemma reachable_example:
  "reachable (initializeStudySession (\<lambda>i. 0) (Due ''SQL'' [card_a, card_b]) blank_page)"
  by (rule reach_init) (simp add: page_load_def blank_page_def)

text \<open>
  Claim C9. In every reachable state in which a rating click runs the handler
  (listeners attached, rating buttons not disabled, hidden or not) the index is below
  the length of the card list, and \<open>handleRatingClick\<close> finds its card: it does not end
  in the \<open>TypeError\<close> of a read past the end but disables the buttons and posts the
  review of that card.
\<close>

theorem rating_reads_a_card:
  assumes "reachable s" and "rating_enabled s"
  shows "currentCardIndex s < length (cards s)
       \<and> handleRatingClick rating s
           = Inr (s\<lparr>ratingButtonsDisabled := True,
                    posted := posted s @ [(card_id (cards s ! currentCardIndex s), rating)],
                    pending := pending s @ [(card_id (cards s ! currentCardIndex s), rating)]\<rparr>)"
proof -
  from reachable_inv [OF assms(1)] assms(2)
  have "currentCardIndex s \<le> length (cards s)" and "currentCardIndex s \<noteq> length (cards s)"
    by (auto simp: session_inv_def rating_enabled_def)
  then have "currentCardIndex s < length (cards s)" by simp
  then show ?thesis by (simp add: handleRatingClick_def Let_def)
qed

theorem rating_reads_a_card_witness:
  "reachable (step ClickAction (initializeStudySession (\<lambda>i. 0) (Due ''SQL'' [card_a, card_b]) blank_page))
   \<and> rating_enabled (step ClickAction (initializeStudySession (\<lambda>i. 0) (Due ''SQL'' [card_a, card_b]) blank_page))
   \<and> currentCardIndex (step ClickAction (initializeStudySession (\<lambda>i. 0) (Due ''SQL'' [card_a, card_b]) blank_page))
       < length (cards (step ClickAction (initializeStudySession (\<lambda>i. 0) (Due ''SQL'' [card_a, card_b]) blank_page)))"
proof -
  let ?s = "step ClickAction (initializeStudySession (\<lambda>i. 0) (Due ''SQL'' [card_a, card_b]) blank_page)"
  have r: "reachable ?s" by (rule reach_step) (rule reachable_example)
  have e: "rating_enabled ?s"
    by (simp add: rating_enabled_def action_enabled_def initializeStudySession_def loadCard_def
        handleActionClick_def Let_def blank_page_def)
  from rating_reads_a_card [OF r e, THEN conjunct1] r e show ?thesis by - (intro conjI, assumption+)
qed

text \<open>
  Claim C7 says that rating before the reveal changes nothing. The script does not do
  that. \<open>handleActionClick\<close> tests the reveal flag before it acts; \<open>handleRatingClick\<close> and
  its listener test nothing of the kind, and before the reveal the rating buttons are
  only hidden, not disabled. In the state right after the start of a session of two
  cards (reachable, back not revealed, rating buttons hidden and enabled, nothing
  posted, index 0) a click dispatched to a rating button posts the review of the card
  shown, and the success of that request advances the index to 1 and loads the next
  card, with no reveal in between.
\<close>

theorem rating_before_reveal_posts:
  "reachable (initializeStudySession (\<lambda>i. 0) (Due ''SQL'' [card_a, card_b]) blank_page)
   \<and> \<not> isBackVisible (initializeStudySession (\<lambda>i. 0) (Due ''SQL'' [card_a, card_b]) blank_page)
   \<and> ratingButtonsHidden (initializeStudySession (\<lambda>i. 0) (Due ''SQL'' [card_a, card_b]) blank_page)
   \<and> rating_enabled (initializeStudySession (\<lambda>i. 0) (Due ''SQL'' [card_a, card_b]) blank_page)
   \<and> currentCardIndex (initializeStudySession (\<lambda>i. 0) (Due ''SQL'' [card_a, card_b]) blank_page) = 0
   \<and> posted (initializeStudySession (\<lambda>i. 0) (Due ''SQL'' [card_a, card_b]) blank_page) = []
   \<and> loaded (initializeStudySession (\<lambda>i. 0) (Due ''SQL'' [card_a, card_b]) blank_page) = [card_b]
   \<and> posted (step (ClickRating ''good'')
        (initializeStudySession (\<lambda>i. 0) (Due ''SQL'' [card_a, card_b]) blank_page)) = [(9, ''good'')]
   \<and> currentCardIndex (step ReviewOk (step (ClickRating ''good'')
        (initializeStudySession (\<lambda>i. 0) (Due ''SQL'' [card_a, card_b]) blank_page))) = 1
   \<and> loaded (step ReviewOk (step (ClickRating ''good'')
        (initializeStudySession (\<lambda>i. 0) (Due ''SQL'' [card_a, card_b]) blank_page))) = [card_b, card_a]
   \<and> step (ClickRating ''good'')
        (initializeStudySession (\<lambda>i. 0) (Due ''SQL'' [card_a, card_b]) blank_page)
       \<noteq> initializeStudySession (\<lambda>i. 0) (Due ''SQL'' [card_a, card_b]) blank_page"
proof -
  let ?s = "initializeStudySession (\<lambda>i. 0) (Due ''SQL'' [card_a, card_b]) blank_page"
  have sh: "shuffleArray (\<lambda>i. 0) [card_a, card_b] = [card_b, card_a]"
    by (simp add: shuffleArray_def shuffle_loop.simps swap_def Let_def)
  have b: "\<not> isBackVisible ?s" and h: "ratingButtonsHidden ?s" and e: "rating_enabled ?s"
    and i: "currentCardIndex ?s = 0" and p: "posted ?s = []" and l: "loaded ?s = [card_b]"
    by (simp_all add: initializeStudySession_def loadCard_def Let_def blank_page_def
        rating_enabled_def sh)
  have "posted (step (ClickRating ''good'') ?s) = [(card_id card_b, ''good'')]"
    by (simp add: initializeStudySession_def loadCard_def Let_def blank_page_def
        rating_enabled_def handleRatingClick_def sh)
  then have p1: "posted (step (ClickRating ''good'') ?s) = [(9, ''good'')]"
    by (simp add: card_b_def)
  have i2: "currentCardIndex (step ReviewOk (step (ClickRating ''good'') ?s)) = 1"
    and l2: "loaded (step ReviewOk (step (ClickRating ''good'') ?s)) = [card_b, card_a]"
    by (simp_all add: initializeStudySession_def loadCard_def Let_def blank_page_def
        rating_enabled_def handleRatingClick_def review_succeeded_def sh)
  have n: "step (ClickRating ''good'') ?s \<noteq> ?s"
  proof
    assume "step (ClickRating ''good'') ?s = ?s"
    then have "posted (step (ClickRating ''good'') ?s) = posted ?s" by (rule arg_cong)
    with p1 p show False by simp
  qed
  from reachable_example b h e i p l p1 i2 l2 n show ?thesis by - (intro conjI, assumption+)
qed

text \<open>
  Claim C8. From a reachable state in which a rating click runs the handler, the click
  posts one review for the current card and disables the rating buttons; when that
  request fails, the card list, the index and the reveal flag are as before the click,
  the rating buttons are enabled again, the error message is shown, nothing further
  was posted and no request is pending; and another rating click posts a review for
  the same card. When the rating buttons were showing at the click, the back was
  revealed, and after the failure it still is and the buttons still show.
\<close>

theorem failed_review_keeps_card:
  assumes "reachable s" and "rating_enabled s"
  shows "let s1 = step (ClickRating rating) s; s2 = step (ReviewFailed message) s1 in
           posted s1 = posted s @ [(card_id (cards s ! currentCardIndex s), rating)]
         \<and> ratingButtonsDisabled s1
         \<and> cards s2 = cards s
         \<and> currentCardIndex s2 = currentCardIndex s
         \<and> isBackVisible s2 = isBackVisible s
         \<and> ratingButtonsHidden s2 = ratingButtonsHidden s
         \<and> (\<not> ratingButtonsHidden s \<longrightarrow>
               isBackVisible s \<and> isBackVisible s2 \<and> \<not> ratingButtonsHidden s2)
         \<and> rating_enabled s2
         \<and> posted s2 = posted s1
         \<and> pending s2 = []
         \<and> errorMessage s2 = ''Error submitting review: '' @ message
         \<and> \<not> errorMessageHidden s2
         \<and> (\<forall>rating'. posted (step (ClickRating rating') s2)
               = posted s2 @ [(card_id (cards s ! currentCardIndex s), rating')])"
proof -
  note inv = reachable_inv [OF assms(1)]
  from inv assms(2) have p: "pending s = []"
    and k: "currentCardIndex s \<le> length (cards s)" "currentCardIndex s \<noteq> length (cards s)"
    and v: "ratingButtonsHidden s = (\<not> isBackVisible s)"
    by (auto simp: session_inv_def rating_enabled_def)
  from k have "currentCardIndex s < length (cards s)" by simp
  with assms(2) p v show ?thesis
    by (simp add: rating_enabled_def handleRatingClick_def review_failed_def Let_def)
qed

theorem failed_review_keeps_card_witness:
  "reachable (step ClickAction (initializeStudySession (\<lambda>i. 0) (Due ''SQL'' [card_a, card_b]) blank_page))
   \<and> rating_enabled (step ClickAction (initializeStudySession (\<lambda>i. 0) (Due ''SQL'' [card_a, card_b]) blank_page))
   \<and> \<not> ratingButtonsHidden (step ClickAction (initializeStudySession (\<lambda>i. 0) (Due ''SQL'' [card_a, card_b]) blank_page))
   \<and> currentCardIndex (step (ReviewFailed ''busy'') (step (ClickRating ''good'')
        (step ClickAction (initializeStudySession (\<lambda>i. 0) (Due ''SQL'' [card_a, card_b]) blank_page))))
       = currentCardIndex (step ClickAction (initializeStudySession (\<lambda>i. 0) (Due ''SQL'' [card_a, card_b]) blank_page))
   \<and> isBackVisible (step (ReviewFailed ''busy'') (step (ClickRating ''good'')
        (step ClickAction (initializeStudySession (\<lambda>i. 0) (Due ''SQL'' [card_a, card_b]) blank_page))))"
proof -
  let ?s = "step ClickAction (initializeStudySession (\<lambda>i. 0) (Due ''SQL'' [card_a, card_b]) blank_page)"
  have r: "reachable ?s" by (rule reach_step) (rule reachable_example)
  have e: "rating_enabled ?s" and h: "\<not> ratingButtonsHidden ?s"
    by (simp_all add: rating_enabled_def action_enabled_def initializeStudySession_def loadCard_def
        handleActionClick_def Let_def blank_page_def)
  note t = failed_review_keeps_card [OF r e, of "''good''" "''busy''", unfolded Let_def]
  from t have a: "currentCardIndex (step (ReviewFailed ''busy'') (step (ClickRating ''good'') ?s))
       = currentCardIndex ?s"
    by (elim conjE)
  from t h have b: "isBackVisible (step (ReviewFailed ''busy'') (step (ClickRating ''good'') ?s))"
    by (elim conjE) simp
  from r e h a b show ?thesis by - (intro conjI, assumption+)
qed

end
